theory Spec2Isabelle
  imports Complex_Main "HOL-Library.Char_ord" "HOL-Library.List_Lexorder"
begin

section \<open>Python values and errors\<close>

text \<open>
  Exceptions of the Python code are values: a function that can raise returns
  \<open>py_error + 'a\<close>, with \<open>Inl\<close> for the exception that leaves the function.
\<close>

datatype py_error =
    KeyError | TypeError | ValueError | IndexError | AssertionError | ZeroDivisionError

text \<open>
  Python floats are modelled by the rationals: every finite float is a rational, and the
  operations used below (\<open>int\<close>, \<open>round\<close>, comparison) are exact on them. Rounding of
  float arithmetic, \<open>nan\<close> and \<open>inf\<close> are not represented.

  \<open>int(x)\<close> truncates toward zero; \<open>round(x)\<close> rounds half to even.
\<close>

definition py_int :: "rat \<Rightarrow> int" where
  "py_int x = (if 0 \<le> x then \<lfloor>x\<rfloor> else \<lceil>x\<rceil>)"

definition py_round :: "rat \<Rightarrow> int" where
  "py_round x =
     (let f = \<lfloor>x\<rfloor>; d = x - of_int f
      in if d < 1 / 2 then f
         else if 1 / 2 < d then f + 1
         else if even f then f else f + 1)"

section \<open>vasc\_occ\_parsing.py: VascOccParser.\_get\_params\<close>

text \<open>
  The ScanImage metadata of a TIF file, as \<open>tifffile\<close> hands it over: \<open>None\<close> for a file
  without such a block, else a dictionary whose \<open>FrameData\<close> entry holds the three values
  that \<open>_get_params\<close> reads. \<open>SI.hChannels.channelsActive\<close> is a scalar for a
  single-channel recording and a list otherwise; \<open>len\<close> of a scalar raises TypeError.
\<close>

datatype si_value = Scalar int | Vector "int list"

record frame_data =
  scanFrameRate :: rat
  channelsActive :: si_value
  framesPerSlice :: int

type_synonym si_meta = "(string \<rightharpoonup> frame_data) option"

text \<open>
  The attributes of \<open>VascOccParser\<close> that \<open>_get_params\<close> reads and writes. The attributes
  declared \<open>init=False\<close> are unset (\<open>None\<close> here) until assigned; \<open>parser_fps\<close> is the
  attribute \<open>fps\<close>. \<open>timestamps\<close> is
  \<open>np.arange(num_of_frames) / fps\<close>, kept as the pair of its two arguments.
\<close>

record VascOccParser =
  frames_before_stim :: int
  len_of_epoch_in_frames :: int
  parser_fps :: "rat option"
  num_of_channels :: "nat option"
  frames_after_stim :: "int option"
  start_time :: "string option"
  timestamps :: "(int \<times> rat) option"

text \<open>The \<open>except TypeError\<close> branch: warn and fall back to fixed defaults.\<close>

definition get_params_fallback :: "VascOccParser \<Rightarrow> VascOccParser" where
  "get_params_fallback self =
     self\<lparr>start_time := None, timestamps := None,
          frames_after_stim := Some 1000, parser_fps := Some (5831 / 100)\<rparr>"

text \<open>
  \<open>_get_params(self, fname)\<close>: \<open>meta\<close> is \<open>f.scanimage_metadata\<close> of the opened file and
  \<open>mtime\<close> the formatted modification time of the first TIF. Subscripting \<open>None\<close> raises
  the TypeError that the function catches; a missing \<open>FrameData\<close> key raises KeyError,
  which it does not catch. The assignments happen in source order, so \<open>fps\<close> is already
  assigned when \<open>len\<close> fails.
\<close>

definition get_params :: "VascOccParser \<Rightarrow> si_meta \<Rightarrow> string \<Rightarrow> py_error + VascOccParser" where
  "get_params self meta mtime =
     (case meta of
        None \<Rightarrow> Inr (get_params_fallback self)
      | Some d \<Rightarrow>
          (case d ''FrameData'' of
             None \<Rightarrow> Inl KeyError
           | Some fd \<Rightarrow>
               (let self1 = self\<lparr>parser_fps := Some (scanFrameRate fd)\<rparr>
                in case channelsActive fd of
                     Scalar c \<Rightarrow> Inr (get_params_fallback self1)
                   | Vector cs \<Rightarrow>
                       (let self2 = self1\<lparr>num_of_channels := Some (length cs)\<rparr>;
                            num_of_frames = framesPerSlice fd;
                            self3 = self2\<lparr>frames_after_stim :=
                                      Some (num_of_frames -
                                        (frames_before_stim self2 + len_of_epoch_in_frames self2))\<rparr>;
                            self4 = self3\<lparr>start_time := Some mtime\<rparr>
                        in Inr (self4\<lparr>timestamps := Some (num_of_frames, scanFrameRate fd)\<rparr>)))))"


section \<open>Arrays\<close>

text \<open>
  A numpy array of floats: its shape and its elements in row-major order. An array has
  as many elements as its shape says (\<open>wf_ndarray\<close>). \<open>for row, cell in enumerate(a)\<close>
  over a two-dimensional array yields the rows (\<open>row_cells\<close>).
\<close>

record ndarray =
  shape :: "nat list"
  elems :: "rat list"

definition wf_ndarray :: "ndarray \<Rightarrow> bool" where
  "wf_ndarray a \<longleftrightarrow> length (elems a) = prod_list (shape a)"

definition zeros_like :: "ndarray \<Rightarrow> ndarray" where
  "zeros_like a = a\<lparr>elems := replicate (length (elems a)) 0\<rparr>"

definition row_cells :: "ndarray \<Rightarrow> rat list list" where
  "row_cells a =
     (case shape a of
        [r, c] \<Rightarrow> map (\<lambda>i. take c (drop (i * c) (elems a))) [0..<r]
      | _ \<Rightarrow> [])"

text \<open>
  An index array carries its dtype: \<open>np.where\<close> and \<open>np.arange\<close> give integer arrays,
  \<open>np.array([])\<close> gives an (empty) float array. \<open>a[row, idx] = v\<close> on a two-dimensional
  array raises IndexError for an index array that is not of integer type and for an index
  outside the row.
\<close>

datatype index_array = IntIndex "nat list" | FloatIndex "rat list"

definition set_item :: "ndarray \<Rightarrow> nat \<Rightarrow> index_array \<Rightarrow> rat \<Rightarrow> py_error + ndarray" where
  "set_item a row idx v =
     (case idx of
        FloatIndex xs \<Rightarrow> Inl IndexError
      | IntIndex ps \<Rightarrow>
          (let c = shape a ! 1
           in if \<forall>p \<in> set ps. p < c
              then Inr (a\<lparr>elems := fold (\<lambda>p es. es[row * c + p := v]) ps (elems a)\<rparr>)
              else Inl IndexError))"

definition get_item :: "ndarray \<Rightarrow> nat \<Rightarrow> nat \<Rightarrow> rat" where
  "get_item a row t = elems a ! (row * (shape a ! 1) + t)"

definition index_values :: "index_array \<Rightarrow> rat list" where
  "index_values idx = (case idx of IntIndex ps \<Rightarrow> map of_nat ps | FloatIndex xs \<Rightarrow> xs)"

definition np_diff :: "rat list \<Rightarrow> rat list" where
  "np_diff y = map (\<lambda>i. y ! Suc i - y ! i) [0..<length y - 1]"

definition np_where :: "(nat \<Rightarrow> bool) \<Rightarrow> nat \<Rightarrow> nat list" where
  "np_where P n = filter P [0..<n]"

definition assign :: "'a list \<Rightarrow> nat list \<Rightarrow> 'a \<Rightarrow> 'a list" where
  "assign xs idx v = fold (\<lambda>i d. d[i := v]) idx xs"

definition np_median :: "nat list \<Rightarrow> rat" where
  "np_median p =
     (let n = length p
      in if even n then (of_nat (p ! (n div 2 - 1)) + of_nat (p ! (n div 2))) / 2
         else of_nat (p ! (n div 2)))"

definition set_slice :: "bool list \<Rightarrow> nat \<Rightarrow> nat \<Rightarrow> bool \<Rightarrow> bool list" where
  "set_slice rem lo hi v = map (\<lambda>i. if lo \<le> i \<and> i < hi then v else rem ! i) [0..<length rem]"

section \<open>The peak finder called by the spike detector\<close>

text \<open>
  \<open>peakutils.indexes(y, thres, min_dist)\<close> is the routine of the PeakUtils package that
  both spike detectors call on every row. It is not code of this repository; the model
  follows the package's implementation (release 1.3), step by step:
  \<^item> the threshold is scaled to the range of the row (\<open>np.max\<close> of an empty row raises
    ValueError);
  \<^item> a totally flat row returns \<open>np.array([])\<close>, an empty array of float dtype;
  \<^item> plateaus of the first difference are filled from their neighbours
    (\<open>fill_plateaus\<close>), and a peak is a sample above the threshold where the filled
    difference changes from positive to negative;
  \<^item> if there are several peaks and \<open>min_dist > 1\<close>, the peaks are visited from the highest
    down, and each one still standing removes every other peak within \<open>min_dist\<close> samples
    (\<open>remove_close\<close>, whose loop body is \<open>knock_out\<close>).
  \<open>np.argsort\<close> leaves the order of equal heights open; the model takes the stable order.
\<close>

fun chains :: "nat list \<Rightarrow> nat list list" where
  "chains [] = []"
| "chains [z] = [[z]]"
| "chains (z # z' # zs) =
     (if z' - z \<noteq> 1 then [z] # chains (z' # zs)
      else case chains (z' # zs) of [] \<Rightarrow> [[z]] | c # cs \<Rightarrow> (z # c) # cs)"

definition fix_leftmost :: "rat list \<times> nat list list \<Rightarrow> rat list \<times> nat list list" where
  "fix_leftmost s =
     (case s of (dy, ps) \<Rightarrow>
        if hd (hd ps) = 0 then (assign dy (hd ps) (dy ! (last (hd ps) + 1)), tl ps)
        else (dy, ps))"

definition fix_rightmost :: "rat list \<times> nat list list \<Rightarrow> rat list \<times> nat list list" where
  "fix_rightmost s =
     (case s of (dy, ps) \<Rightarrow>
        if ps \<noteq> [] \<and> last (last ps) = length dy - 1
        then (assign dy (last ps) (dy ! (hd (last ps) - 1)), butlast ps)
        else (dy, ps))"

definition fix_plateau :: "nat list \<Rightarrow> rat list \<Rightarrow> rat list" where
  "fix_plateau plateau dy =
     (let median = np_median plateau;
          dy1 = assign dy (filter (\<lambda>i. of_nat i < median) plateau) (dy ! (hd plateau - 1))
      in assign dy1 (filter (\<lambda>i. median \<le> of_nat i) plateau) (dy1 ! (last plateau + 1)))"

definition fill_plateaus :: "rat list \<Rightarrow> nat list \<Rightarrow> rat list" where
  "fill_plateaus dy zeros =
     (if zeros = [] then dy
      else case fix_rightmost (fix_leftmost (dy, chains zeros)) of
             (dy', ps) \<Rightarrow> fold fix_plateau ps dy')"

definition knock_out :: "nat \<Rightarrow> nat \<Rightarrow> bool list \<Rightarrow> bool list" where
  "knock_out d peak rem =
     (if \<not> rem ! peak then (set_slice rem (peak - d) (peak + d + 1) True)[peak := False]
      else rem)"

fun remove_close :: "nat \<Rightarrow> nat list \<Rightarrow> bool list \<Rightarrow> bool list" where
  "remove_close d [] rem = rem"
| "remove_close d (peak # highest) rem = remove_close d highest (knock_out d peak rem)"

text \<open>
  The invariant of \<open>remove_close\<close>: around every visited peak \<open>x\<close> that still stands
  (\<open>rem ! x\<close> is false), everything else within \<open>d\<close> samples is removed.
\<close>

definition standing_apart :: "nat \<Rightarrow> bool list \<Rightarrow> nat set \<Rightarrow> bool" where
  "standing_apart d rem X \<longleftrightarrow>
     (\<forall>x \<in> X. \<not> rem ! x \<longrightarrow>
        (\<forall>i<length rem. i \<noteq> x \<and> x \<le> i + d \<and> i \<le> x + d \<longrightarrow> rem ! i))"

definition indexes :: "rat list \<Rightarrow> rat \<Rightarrow> int \<Rightarrow> py_error + index_array" where
  "indexes y thres min_dist =
     (if y = [] then Inl ValueError
      else
        let thres' = thres * (Max (set y) - Min (set y)) + Min (set y);
            dy = np_diff y;
            zeros = np_where (\<lambda>i. dy ! i = 0) (length dy)
        in if length zeros = length y - 1 then Inr (FloatIndex [])
           else
             let dy' = fill_plateaus dy zeros;
                 peaks = np_where (\<lambda>i. (dy' @ [0]) ! i < 0 \<and> (0 # dy') ! i > 0 \<and> y ! i > thres')
                           (length y)
             in if length peaks > 1 \<and> min_dist > 1
                then
                  let highest = rev (sort_key (\<lambda>i. y ! i) peaks);
                      rem = assign (replicate (length y) True) peaks False;
                      rem' = remove_close (nat min_dist) highest rem
                  in Inr (IntIndex (np_where (\<lambda>i. \<not> rem' ! i) (length y)))
                else Inr (IntIndex peaks))"

section \<open>dff\_tools.py: locate\_spikes\_peakutils\<close>

text \<open>
  The loop over the rows, with the spike matrix as its state. An exception of the peak
  finder or of the assignment leaves the function.
\<close>

fun spikes_loop :: "rat \<Rightarrow> int \<Rightarrow> (nat \<times> rat list) list \<Rightarrow> ndarray \<Rightarrow> py_error + ndarray" where
  "spikes_loop thresh min_dist [] all_spikes = Inr all_spikes"
| "spikes_loop thresh min_dist ((row, cell) # rest) all_spikes =
     (case indexes cell thresh min_dist of
        Inl e \<Rightarrow> Inl e
      | Inr peaks \<Rightarrow>
          (case set_item all_spikes row peaks 1 of
             Inl e \<Rightarrow> Inl e
           | Inr all_spikes' \<Rightarrow> spikes_loop thresh min_dist rest all_spikes'))"

definition locate_spikes_peakutils :: "ndarray \<Rightarrow> rat \<Rightarrow> rat \<Rightarrow> py_error + ndarray" where
  "locate_spikes_peakutils data fps thresh =
     (if \<not> (length (shape data) = 2 \<and> 0 < hd (shape data)) then Inl AssertionError
      else
        let all_spikes = zeros_like data;
            min_dist = py_int fps
        in spikes_loop thresh min_dist (enumerate 0 (row_cells data)) all_spikes)"

section \<open>vasc\_occ\_analysis.py: VascOccAnalyzer.\_find\_spikes\<close>

text \<open>
  The attributes of the serialised array that \<open>_find_spikes\<close> reads, and one row of the
  data frame it returns. The frame counts are Python integers, so \<open>/\<close> is true division
  and raises ZeroDivisionError on a zero divisor. The counts of each epoch are collected
  in three lists while the spike matrix is filled row by row; \<open>dff\<close> is the
  two-dimensional cells-by-time array of one epoch.
\<close>

record occ_attrs =
  attr_fps :: rat
  frames_before_occ :: int
  frames_during_occ :: int
  frames_after_occ :: int

record spike_counts =
  before :: rat
  during :: rat
  after :: rat

definition py_truediv :: "int \<Rightarrow> int \<Rightarrow> py_error + rat" where
  "py_truediv a b = (if b = 0 then Inl ZeroDivisionError else Inr (of_int a / of_int b))"

type_synonym find_spikes_state = "ndarray \<times> rat list \<times> rat list \<times> rat list"

fun find_spikes_loop ::
  "rat \<Rightarrow> int \<Rightarrow> int \<Rightarrow> int \<Rightarrow> rat \<Rightarrow> rat \<Rightarrow> (nat \<times> rat list) list \<Rightarrow> find_spikes_state
     \<Rightarrow> py_error + find_spikes_state" where
  "find_spikes_loop thresh min_dist before_occ summed_after_occ nf_during nf_after [] st = Inr st"
| "find_spikes_loop thresh min_dist before_occ summed_after_occ nf_during nf_after
     ((row, cell) # rest) (all_spikes, idx_section1, idx_section2, idx_section3) =
     (case indexes cell thresh min_dist of
        Inl e \<Rightarrow> Inl e
      | Inr idx \<Rightarrow>
          (case set_item all_spikes row idx 1 of
             Inl e \<Rightarrow> Inl e
           | Inr all_spikes' \<Rightarrow>
               (let vs = index_values idx
                in find_spikes_loop thresh min_dist before_occ summed_after_occ nf_during nf_after rest
                     (all_spikes',
                      idx_section1 @ [of_nat (length (filter (\<lambda>v. v < of_int before_occ) vs))],
                      idx_section2 @
                        [of_nat (length (filter (\<lambda>v. of_int before_occ \<le> v \<and> v < of_int summed_after_occ) vs))
                           * nf_during],
                      idx_section3 @
                        [of_nat (length (filter (\<lambda>v. of_int summed_after_occ \<le> v) vs)) * nf_after]))))"

fun make_frame :: "rat list \<Rightarrow> rat list \<Rightarrow> rat list \<Rightarrow> spike_counts list" where
  "make_frame (b # bs) (d # ds) (a # as) = \<lparr>before = b, during = d, after = a\<rparr> # make_frame bs ds as"
| "make_frame _ _ _ = []"

definition find_spikes :: "occ_attrs \<Rightarrow> ndarray \<Rightarrow> py_error + (ndarray \<times> spike_counts list)" where
  "find_spikes attrs dff =
     (let thresh = 8 / 10;
          min_dist = py_int (attr_fps attrs);
          before_occ = frames_before_occ attrs;
          during_occ = frames_during_occ attrs;
          summed_after_occ = before_occ + during_occ
      in case py_truediv before_occ during_occ of
           Inl e \<Rightarrow> Inl e
         | Inr norm_factor_during \<Rightarrow>
             (case py_truediv before_occ (frames_after_occ attrs) of
                Inl e \<Rightarrow> Inl e
              | Inr norm_factor_after \<Rightarrow>
                  (case find_spikes_loop thresh min_dist before_occ summed_after_occ
                          norm_factor_during norm_factor_after
                          (enumerate 0 (row_cells dff)) (zeros_like dff, [], [], []) of
                     Inl e \<Rightarrow> Inl e
                   | Inr (all_spikes, idx_section1, idx_section2, idx_section3) \<Rightarrow>
                       Inr (all_spikes, make_frame idx_section1 idx_section2 idx_section3))))"

section \<open>vasc\_occ\_parsing.py: concat\_vasc\_occ\_dataarrays\<close>

text \<open>
  A labelled array with the dimensions \<open>(epoch, neuron, time)\<close>: one coordinate per
  dimension and the values, indexed \<open>[epoch][neuron][time]\<close>, where \<open>None\<close> is the
  \<open>nan\<close> that alignment fills in. The shape of the values is the length of the three
  coordinates (\<open>wf_DataArray\<close>).

  Two operations of the xarray package are used by the function and modelled after the
  package: the constructor \<open>xr.DataArray(data, dims, coords, attrs)\<close>, which raises
  ValueError when a coordinate does not have the length of its dimension, and
  \<open>xr.concat(objs, dim="neuron")\<close>, which aligns the other dimensions by an outer join
  of their indexes and then puts the arrays one after the other along \<open>neuron\<close>, keeping
  the attributes of the first. The outer join leaves the indexes as they are when all are
  equal; else it folds the union of two indexes over them (\<open>pandas.Index.union\<close>: the
  left index when the right one is empty or equal to it, the right index when the left
  one is empty, else the sorted union of the labels). An array whose index differs from
  the joined one is re-indexed, with \<open>nan\<close> filled in, which an index with duplicates
  does not allow.
\<close>

record DataArray =
  da_epoch :: "string list"
  da_neuron :: "int list"
  da_time :: "rat list"
  da_data :: "rat option list list list"
  da_attrs :: "occ_attrs option"

definition da_shape :: "DataArray \<Rightarrow> nat \<times> nat \<times> nat" where
  "da_shape da = (length (da_epoch da), length (da_neuron da), length (da_time da))"

definition wf_DataArray :: "DataArray \<Rightarrow> bool" where
  "wf_DataArray da \<longleftrightarrow>
     length (da_data da) = length (da_epoch da) \<and>
     (\<forall>slab \<in> set (da_data da). length slab = length (da_neuron da) \<and>
        (\<forall>row \<in> set slab. length row = length (da_time da)))"

definition xr_DataArray ::
  "rat option list list list \<Rightarrow> nat \<times> nat \<times> nat \<Rightarrow> string list \<Rightarrow> int list \<Rightarrow> rat list \<Rightarrow>
     occ_attrs option \<Rightarrow> py_error + DataArray" where
  "xr_DataArray data shp crd_epoch crd_neuron crd_time attrs =
     (if shp = (length crd_epoch, length crd_neuron, length crd_time)
      then Inr \<lparr>da_epoch = crd_epoch, da_neuron = crd_neuron, da_time = crd_time,
                da_data = data, da_attrs = attrs\<rparr>
      else Inl ValueError)"

definition index_union :: "('k::linorder) list \<Rightarrow> 'k list \<Rightarrow> 'k list" where
  "index_union a b =
     (if b = [] \<or> a = b then a
      else if a = [] then b
      else sort (remdups (a @ b)))"

definition outer_join :: "('k::linorder) list list \<Rightarrow> 'k list" where
  "outer_join idxs =
     (if \<forall>i \<in> set idxs. i = hd idxs then hd idxs
      else foldl index_union (hd idxs) (tl idxs))"

definition reindex :: "'k list \<Rightarrow> 'k list \<Rightarrow> 'v \<Rightarrow> 'v list \<Rightarrow> 'v list" where
  "reindex old new fill xs =
     map (\<lambda>k. case map_of (zip old xs) k of Some x \<Rightarrow> x | None \<Rightarrow> fill) new"

definition align_DataArray :: "string list \<Rightarrow> rat list \<Rightarrow> DataArray \<Rightarrow> py_error + DataArray" where
  "align_DataArray epoch_idx time_idx da =
     (if (da_epoch da \<noteq> epoch_idx \<and> \<not> distinct (da_epoch da)) \<or>
         (da_time da \<noteq> time_idx \<and> \<not> distinct (da_time da))
      then Inl ValueError
      else
        let nan_row = replicate (length time_idx) None;
            nan_slab = replicate (length (da_neuron da)) nan_row;
            data1 = (if da_time da = time_idx then da_data da
                     else map (map (reindex (da_time da) time_idx None)) (da_data da));
            data2 = (if da_epoch da = epoch_idx then data1
                     else reindex (da_epoch da) epoch_idx nan_slab data1)
        in Inr (da\<lparr>da_epoch := epoch_idx, da_time := time_idx, da_data := data2\<rparr>))"

fun align_all :: "string list \<Rightarrow> rat list \<Rightarrow> DataArray list \<Rightarrow> py_error + DataArray list" where
  "align_all epoch_idx time_idx [] = Inr []"
| "align_all epoch_idx time_idx (da # das) =
     (case align_DataArray epoch_idx time_idx da of
        Inl e \<Rightarrow> Inl e
      | Inr da' \<Rightarrow>
          (case align_all epoch_idx time_idx das of
             Inl e \<Rightarrow> Inl e
           | Inr das' \<Rightarrow> Inr (da' # das')))"

definition xr_concat_neuron :: "DataArray list \<Rightarrow> py_error + DataArray" where
  "xr_concat_neuron das =
     (if das = [] then Inl ValueError
      else
        let epoch_idx = outer_join (map da_epoch das);
            time_idx = outer_join (map da_time das)
        in case align_all epoch_idx time_idx das of
             Inl e \<Rightarrow> Inl e
           | Inr aligned \<Rightarrow>
               Inr \<lparr>da_epoch = epoch_idx,
                    da_neuron = concat (map da_neuron aligned),
                    da_time = time_idx,
                    da_data = map (\<lambda>e. concat (map (\<lambda>da. da_data da ! e) aligned)) [0..<length epoch_idx],
                    da_attrs = da_attrs (hd aligned)\<rparr>)"

type_synonym concat_state = "DataArray list \<times> nat \<times> rat list"

fun concat_loop :: "string list \<Rightarrow> DataArray list \<Rightarrow> concat_state \<Rightarrow> py_error + concat_state" where
  "concat_loop crd_epoch [] st = Inr st"
| "concat_loop crd_epoch (da # das) (new_da_list, num_of_neurons, crd_time) =
     (let crd_neuron = map int [num_of_neurons..<num_of_neurons + length (da_neuron da)];
          crd_time' = (if length (da_time da) \<noteq> length crd_time then da_time da else crd_time)
      in case xr_DataArray (da_data da) (da_shape da) crd_epoch crd_neuron crd_time' (da_attrs da) of
           Inl e \<Rightarrow> Inl e
         | Inr reindexed_da \<Rightarrow>
             concat_loop crd_epoch das
               (new_da_list @ [reindexed_da], num_of_neurons + length (da_neuron da), crd_time'))"

definition concat_vasc_occ_dataarrays :: "DataArray list \<Rightarrow> py_error + DataArray" where
  "concat_vasc_occ_dataarrays da_list =
     (case da_list of
        [] \<Rightarrow> Inl IndexError
      | da0 # _ \<Rightarrow>
          (case concat_loop (da_epoch da0) da_list ([], 0, da_time da0) of
             Inl e \<Rightarrow> Inl e
           | Inr (new_da_list, num_of_neurons, crd_time) \<Rightarrow> xr_concat_neuron new_da_list))"

section \<open>calcium\_over\_time.py: FileFinder\<close>

text \<open>
  A path is its parent directory and its file name. The directory tree is given by
  \<open>rglob\<close>: \<open>rglob folder pattern\<close> is the sequence that \<open>folder.rglob(pattern)\<close>
  yields, in traversal order. \<open>next\<close> of an exhausted generator raises StopIteration,
  which the method catches to skip the file.

  The enumeration \<open>AnalogAcquisitionType\<close> is declared in \<open>analog_trace\<close>; the method only
  tests whether the value is \<open>NONE\<close>.
\<close>

datatype AnalogAcquisitionType = NONE | TREADMILL

record path =
  parent :: string
  name :: string

type_synonym tree = "string \<Rightarrow> string \<Rightarrow> path list"

record FileFinder =
  results_folder :: string
  folder_globs :: "(string \<times> string) list"
  analog :: AnalogAcquisitionType
  with_colabeled :: bool

definition next_of :: "'a list \<Rightarrow> 'a option" where
  "next_of xs = (case xs of [] \<Rightarrow> None | x # _ \<Rightarrow> Some x)"

type_synonym found_files = "path list \<times> path option list \<times> path list \<times> path option list"

text \<open>
  The body of the inner loop for one file that the glob string matched; the state is the
  four lists \<open>(fluo_files, analog_files, result_files, colabeled_files)\<close>. Every
  \<open>continue\<close> returns the state unchanged.
\<close>

definition visit_file :: "tree \<Rightarrow> FileFinder \<Rightarrow> string \<Rightarrow> path \<Rightarrow> found_files \<Rightarrow> found_files" where
  "visit_file rglob self folder file st =
     (let fname = take (length (name file) - 4) (name file)
      in case (if analog self \<noteq> NONE
               then map_option Some (next_of (rglob folder (fname @ ''*analog*.txt'')))
               else Some None) of
           None \<Rightarrow> st
         | Some analog_file \<Rightarrow>
             (case next_of (rglob folder (fname @ ''*results.npz'')) of
                None \<Rightarrow> st
              | Some result_file \<Rightarrow>
                  (case (if with_colabeled self
                         then map_option Some (next_of (rglob folder (fname @ ''*_colabeled*.npy'')))
                         else Some None) of
                     None \<Rightarrow> st
                   | Some colabeled_file \<Rightarrow>
                       (case next_of (rglob folder (fname @ ''*.nc'')) of
                          Some _ \<Rightarrow> st
                        | None \<Rightarrow>
                            (case st of (fluo_files, analog_files, result_files, colabeled_files) \<Rightarrow>
                               (fluo_files @ [file], analog_files @ [analog_file],
                                result_files @ [result_file],
                                colabeled_files @ [colabeled_file]))))))"

definition find_all_relevant_files :: "tree \<Rightarrow> FileFinder \<Rightarrow> found_files" where
  "find_all_relevant_files rglob self =
     fold (\<lambda>(folder, globstr) st. fold (visit_file rglob self folder) (rglob folder globstr) st)
       (folder_globs self) ([], [], [], [])"

text \<open>
  \<open>_make_table\<close> zips the four lists into the rows of the table, with the columns
  \<open>tif\<close>, \<open>caiman\<close>, \<open>analog\<close> and \<open>colabeled\<close>; \<open>find_files\<close> returns that table.
\<close>

record recording_group =
  tif :: path
  caiman :: path
  analog_txt :: "path option"
  colabeled :: "path option"

fun make_table :: "path list \<Rightarrow> path option list \<Rightarrow> path list \<Rightarrow> path option list
    \<Rightarrow> recording_group list" where
  "make_table (f # fs) (a # as) (r # rs) (c # cs) =
     \<lparr>tif = f, caiman = r, analog_txt = a, colabeled = c\<rparr> # make_table fs as rs cs"
| "make_table _ _ _ _ = []"

definition find_files :: "tree \<Rightarrow> FileFinder \<Rightarrow> recording_group list" where
  "find_files rglob self =
     (case find_all_relevant_files rglob self of
        (fluo_files, analog_files, result_files, colabeled_files) \<Rightarrow>
          make_table fluo_files analog_files result_files colabeled_files)"

text \<open>
  The invariant of the two loops: the four lists grow together, and every row they
  make satisfies \<open>P\<close>.
\<close>

definition found_inv :: "(recording_group \<Rightarrow> bool) \<Rightarrow> found_files \<Rightarrow> bool" where
  "found_inv P st \<longleftrightarrow>
     (case st of (fs, as, rs, cs) \<Rightarrow>
        length as = length fs \<and> length rs = length fs \<and> length cs = length fs \<and>
        (\<forall>g \<in> set (make_table fs as rs cs). P g))"

text \<open>
  A small directory tree: three recordings, of which \<open>fov1\<close> has its results and an
  earlier \<open>.nc\<close> output, \<open>fov2\<close> has no results, and \<open>fov3\<close> has results only.
\<close>

definition tree1 :: tree where
  "tree1 folder pat =
     (if folder = ''data'' \<and> pat = ''*.tif''
      then [\<lparr>parent = ''data'', name = ''fov1.tif''\<rparr>, \<lparr>parent = ''data'', name = ''fov2.tif''\<rparr>,
            \<lparr>parent = ''data'', name = ''fov3.tif''\<rparr>]
      else if folder = ''data'' \<and> pat = ''fov1*results.npz''
      then [\<lparr>parent = ''data'', name = ''fov1_results.npz''\<rparr>]
      else if folder = ''data'' \<and> pat = ''fov1*.nc''
      then [\<lparr>parent = ''data'', name = ''fov1.nc''\<rparr>]
      else if folder = ''data'' \<and> pat = ''fov3*results.npz''
      then [\<lparr>parent = ''data'', name = ''fov3_results.npz''\<rparr>]
      else [])"

definition finder1 :: FileFinder where
  "finder1 = \<lparr>results_folder = ''data'', folder_globs = [(''data'', ''*.tif'')],
              analog = NONE, with_colabeled = False\<rparr>"

text \<open>
  The list that the loop of \<open>concat_vasc_occ_dataarrays\<close> builds, in closed form: every
  record keeps its values and attributes and gets the epoch labels \<open>crd_epoch\<close>, the next
  \<open>len(da.neuron)\<close> cell indices, and the running time coordinate, which is replaced by
  the record's own one when the lengths differ. \<open>assigned_times\<close> are the time
  coordinates so assigned, \<open>cell_offset\<close> the number of cells before record \<open>k\<close>.
\<close>

fun relabel :: "string list \<Rightarrow> nat \<Rightarrow> rat list \<Rightarrow> DataArray list \<Rightarrow> DataArray list" where
  "relabel crd_epoch n crd_time [] = []"
| "relabel crd_epoch n crd_time (da # das) =
     (let crd_time' = (if length (da_time da) \<noteq> length crd_time then da_time da else crd_time)
      in \<lparr>da_epoch = crd_epoch, da_neuron = map int [n..<n + length (da_neuron da)],
           da_time = crd_time', da_data = da_data da, da_attrs = da_attrs da\<rparr>
         # relabel crd_epoch (n + length (da_neuron da)) crd_time' das)"

definition assigned_times :: "DataArray list \<Rightarrow> rat list list" where
  "assigned_times das = map da_time (relabel (da_epoch (hd das)) 0 (da_time (hd das)) das)"

definition cell_offset :: "DataArray list \<Rightarrow> nat \<Rightarrow> nat" where
  "cell_offset das k = sum_list (map (\<lambda>d. length (da_neuron d)) (take k das))"

text \<open>A record with \<open>n\<close> cells whose values are all \<open>v\<close>.\<close>

definition const_record :: "string list \<Rightarrow> nat \<Rightarrow> rat list \<Rightarrow> rat \<Rightarrow> DataArray" where
  "const_record es n ts v =
     \<lparr>da_epoch = es, da_neuron = map int [0..<n], da_time = ts,
      da_data = replicate (length es) (replicate n (replicate (length ts) (Some v))),
      da_attrs = None\<rparr>"

text \<open>Two records with three and five cells, and what their concatenation is.\<close>

definition fov_pair :: "DataArray list" where
  "fov_pair = [const_record [''all''] 3 [0, 1] 7, const_record [''all''] 5 [0, 1] 8]"

definition fov_pair_merged :: DataArray where
  "fov_pair_merged =
     \<lparr>da_epoch = [''all''], da_neuron = [0, 1, 2, 3, 4, 5, 6, 7], da_time = [0, 1],
      da_data = [[[Some 7, Some 7], [Some 7, Some 7], [Some 7, Some 7],
                  [Some 8, Some 8], [Some 8, Some 8], [Some 8, Some 8], [Some 8, Some 8],
                  [Some 8, Some 8]]],
      da_attrs = None\<rparr>"

text \<open>
  Small inputs of the spike detector: one cell with two peaks three frames apart, and the
  matrix of two cells by ten frames whose second cell is flat, with its first cell alone.
\<close>

definition two_peaks :: ndarray where
  "two_peaks = \<lparr>shape = [1, 6], elems = [0, 3, 0, 0, 4, 0]\<rparr>"

definition scenario_matrix :: ndarray where
  "scenario_matrix =
     \<lparr>shape = [2, 10],
      elems = [0, 0, 5, 0, 0, 0, 5, 0, 0, 0,  0, 0, 0, 0, 0, 0, 0, 0, 0, 0]\<rparr>"

definition scenario_cell0 :: ndarray where
  "scenario_cell0 = \<lparr>shape = [1, 10], elems = [0, 0, 5, 0, 0, 0, 5, 0, 0, 0]\<rparr>"

section \<open>Epoch lengths\<close>

text \<open>
  C1 (as the code has it). \<open>_get_params\<close> has no check on the derived number of frames
  after the perturbation: whenever the metadata block parses, it returns normally and
  stores \<open>total - (before + during)\<close> as it is, negative or not. When
  \<open>before + during \<le> total\<close> the stored value is non-negative.
\<close>

theorem get_params_after_frames:
  assumes "meta = Some d" and "d ''FrameData'' = Some fd" and "channelsActive fd = Vector cs"
  shows "\<exists>self'. get_params self meta mtime = Inr self' \<and>
           frames_after_stim self' =
             Some (framesPerSlice fd - frames_before_stim self - len_of_epoch_in_frames self) \<and>
           (frames_before_stim self + len_of_epoch_in_frames self \<le> framesPerSlice fd
              \<longrightarrow> (\<exists>a\<ge>0. frames_after_stim self' = Some a))"
  using assms by (simp add: get_params_def Let_def)

theorem get_params_after_frames_witness:
  "\<exists>self'. get_params
       \<lparr>frames_before_stim = 100, len_of_epoch_in_frames = 50, parser_fps = None,
        num_of_channels = None, frames_after_stim = None, start_time = None,
        timestamps = None\<rparr>
       (Some [''FrameData'' \<mapsto>
          \<lparr>scanFrameRate = 30, channelsActive = Vector [1, 2], framesPerSlice = 200\<rparr>])
       ''t0'' = Inr self' \<and>
     frames_after_stim self' = Some 50"
  using get_params_after_frames
    [of "Some [''FrameData'' \<mapsto>
          \<lparr>scanFrameRate = 30, channelsActive = Vector [1, 2], framesPerSlice = 200\<rparr>]"
        "[''FrameData'' \<mapsto>
          \<lparr>scanFrameRate = 30, channelsActive = Vector [1, 2], framesPerSlice = 200\<rparr>]"
        "\<lparr>scanFrameRate = 30, channelsActive = Vector [1, 2], framesPerSlice = 200\<rparr>"
        "[1, 2]"
        "\<lparr>frames_before_stim = 100, len_of_epoch_in_frames = 50, parser_fps = None,
        num_of_channels = None, frames_after_stim = None, start_time = None,
        timestamps = None\<rparr>"
        "''t0''"]
  by auto

text \<open>
  C1 as stated fails: with 100 frames in the file, 80 before and 50 during, the remainder
  is \<open>-30\<close>; \<open>_get_params\<close> returns normally and stores it.
\<close>

theorem get_params_negative_counterexample:
  "(100::int) - 80 - 50 < 0 \<and>
   get_params
       \<lparr>frames_before_stim = 80, len_of_epoch_in_frames = 50, parser_fps = None,
        num_of_channels = None, frames_after_stim = None, start_time = None,
        timestamps = None\<rparr>
       (Some [''FrameData'' \<mapsto>
          \<lparr>scanFrameRate = 30, channelsActive = Vector [1, 2], framesPerSlice = 100\<rparr>])
       ''t0''
     = Inr \<lparr>frames_before_stim = 80, len_of_epoch_in_frames = 50, parser_fps = Some 30,
        num_of_channels = Some 2, frames_after_stim = Some (- 30), start_time = Some ''t0'',
        timestamps = Some (100, 30)\<rparr>"
  by (simp add: get_params_def Let_def)

section \<open>File discovery\<close>

lemma make_table_snoc:
  "length as = length fs \<Longrightarrow> length rs = length fs \<Longrightarrow> length cs = length fs \<Longrightarrow>
   make_table (fs @ [f]) (as @ [a]) (rs @ [r]) (cs @ [c]) =
     make_table fs as rs cs @ [\<lparr>tif = f, caiman = r, analog_txt = a, colabeled = c\<rparr>]"
proof (induction fs as rs cs rule: make_table.induct)
  case (1 f fs a as r rs c cs)
  then show ?case by simp
qed simp_all

lemma next_of_Nil: "next_of xs = None \<longleftrightarrow> xs = []"
  by (cases xs) (simp_all add: next_of_def)

lemma visit_file_inv:
  assumes "found_inv P st"
    and "\<And>r a c. next_of (rglob folder (take (length (name file) - 4) (name file) @ ''*results.npz'')) = Some r \<Longrightarrow>
           rglob folder (take (length (name file) - 4) (name file) @ ''*.nc'') = [] \<Longrightarrow>
           P \<lparr>tif = file, caiman = r, analog_txt = a, colabeled = c\<rparr>"
  shows "found_inv P (visit_file rglob self folder file st)"
proof -
  obtain fs as rs cs where st: "st = (fs, as, rs, cs)" by (cases st)
  show ?thesis
    using assms
    by (auto simp: visit_file_def Let_def st found_inv_def make_table_snoc next_of_Nil
             split: option.splits if_splits)
qed

lemma fold_visit_inv:
  assumes "found_inv P st"
    and "\<And>file r a c. file \<in> set files \<Longrightarrow>
           next_of (rglob folder (take (length (name file) - 4) (name file) @ ''*results.npz'')) = Some r \<Longrightarrow>
           rglob folder (take (length (name file) - 4) (name file) @ ''*.nc'') = [] \<Longrightarrow>
           P \<lparr>tif = file, caiman = r, analog_txt = a, colabeled = c\<rparr>"
  shows "found_inv P (fold (visit_file rglob self folder) files st)"
  using assms
proof (induction files arbitrary: st)
  case Nil
  then show ?case by simp
next
  case (Cons f files)
  have "found_inv P (visit_file rglob self folder f st)"
    by (rule visit_file_inv[OF Cons.prems(1)]) (rule Cons.prems(2), simp_all)
  moreover have "found_inv P (fold (visit_file rglob self folder) files st')" if "found_inv P st'" for st'
    by (rule Cons.IH[OF that]) (rule Cons.prems(2), simp_all)
  ultimately show ?case by simp
qed

lemma fold_folders_inv:
  assumes "found_inv P st"
    and "\<And>folder globstr file r a c. (folder, globstr) \<in> set fgs \<Longrightarrow>
           file \<in> set (rglob folder globstr) \<Longrightarrow>
           next_of (rglob folder (take (length (name file) - 4) (name file) @ ''*results.npz'')) = Some r \<Longrightarrow>
           rglob folder (take (length (name file) - 4) (name file) @ ''*.nc'') = [] \<Longrightarrow>
           P \<lparr>tif = file, caiman = r, analog_txt = a, colabeled = c\<rparr>"
  shows "found_inv P
           (fold (\<lambda>(folder, globstr) st. fold (visit_file rglob self folder) (rglob folder globstr) st)
              fgs st)"
  using assms
proof (induction fgs arbitrary: st)
  case Nil
  then show ?case by simp
next
  case (Cons fg fgs)
  obtain folder globstr where fg: "fg = (folder, globstr)" by (cases fg)
  have "found_inv P (fold (visit_file rglob self folder) (rglob folder globstr) st)"
    by (rule fold_visit_inv[OF Cons.prems(1)]) (rule Cons.prems(2), simp_all add: fg)
  moreover have "found_inv P
      (fold (\<lambda>(folder, globstr) st. fold (visit_file rglob self folder) (rglob folder globstr) st)
         fgs st')" if "found_inv P st'" for st'
    by (rule Cons.IH[OF that]) (rule Cons.prems(2), simp_all)
  ultimately show ?case by (simp add: fg)
qed

text \<open>
  C9. Every row of the table that \<open>find_files\<close> returns has a primary file that one of
  the glob strings matched, together with the first results file found for its stem; and
  there is no \<open>.nc\<close> output for that stem under the folder. The stem is the file name
  without its last four characters. A file without its counterpart is skipped by
  \<open>continue\<close>: the function has no error result.
\<close>

theorem find_files_groups:
  assumes "g \<in> set (find_files rglob self)"
  shows "\<exists>folder globstr. (folder, globstr) \<in> set (folder_globs self) \<and>
        tif g \<in> set (rglob folder globstr) \<and>
        next_of (rglob folder (take (length (name (tif g)) - 4) (name (tif g)) @ ''*results.npz''))
          = Some (caiman g) \<and>
        rglob folder (take (length (name (tif g)) - 4) (name (tif g)) @ ''*.nc'') = []"
proof -
  let ?P = "\<lambda>g. \<exists>folder globstr. (folder, globstr) \<in> set (folder_globs self) \<and>
        tif g \<in> set (rglob folder globstr) \<and>
        next_of (rglob folder (take (length (name (tif g)) - 4) (name (tif g)) @ ''*results.npz''))
          = Some (caiman g) \<and>
        rglob folder (take (length (name (tif g)) - 4) (name (tif g)) @ ''*.nc'') = []"
  have "found_inv ?P (find_all_relevant_files rglob self)"
    unfolding find_all_relevant_files_def
    by (rule fold_folders_inv) (auto simp: found_inv_def)
  then show ?thesis
    using assms
    by (auto simp: find_files_def found_inv_def split: prod.splits)
qed


lemma find_files_example:
  "find_files tree1 finder1 =
     [\<lparr>tif = \<lparr>parent = ''data'', name = ''fov3.tif''\<rparr>,
       caiman = \<lparr>parent = ''data'', name = ''fov3_results.npz''\<rparr>,
       analog_txt = None, colabeled = None\<rparr>]"
  by (simp add: find_files_def find_all_relevant_files_def visit_file_def tree1_def finder1_def
        next_of_def)

theorem find_files_groups_witness:
  "\<lparr>tif = \<lparr>parent = ''data'', name = ''fov3.tif''\<rparr>,
       caiman = \<lparr>parent = ''data'', name = ''fov3_results.npz''\<rparr>,
       analog_txt = None, colabeled = None\<rparr> \<in> set (find_files tree1 finder1) \<and>
   (\<exists>folder globstr. (folder, globstr) \<in> set (folder_globs finder1) \<and>
        \<lparr>parent = ''data'', name = ''fov3.tif''\<rparr> \<in> set (tree1 folder globstr) \<and>
        next_of (tree1 folder (''fov3'' @ ''*results.npz''))
          = Some \<lparr>parent = ''data'', name = ''fov3_results.npz''\<rparr> \<and>
        tree1 folder (''fov3'' @ ''*.nc'') = [])"
proof -
  have h: "\<lparr>tif = \<lparr>parent = ''data'', name = ''fov3.tif''\<rparr>,
       caiman = \<lparr>parent = ''data'', name = ''fov3_results.npz''\<rparr>,
       analog_txt = None, colabeled = None\<rparr> \<in> set (find_files tree1 finder1)"
    by (simp add: find_files_example)
  show ?thesis
    using h find_files_groups[OF h] by simp
qed

section \<open>Concatenation of the records\<close>

text \<open>
  The loop succeeds exactly when every record has as many epochs as the first one; it then
  yields the relabelled records. Otherwise the constructor raises ValueError.
\<close>

lemma concat_loop_ok:
  assumes "\<forall>da \<in> set das. length (da_epoch da) = length ce"
  shows "\<exists>ct'. concat_loop ce das (acc, n, ct) =
           Inr (acc @ relabel ce n ct das, n + sum_list (map (\<lambda>d. length (da_neuron d)) das), ct')"
  using assms
proof (induction das arbitrary: acc n ct)
  case Nil
  then show ?case by simp
next
  case (Cons da das)
  let ?ct = "if length (da_time da) \<noteq> length ct then da_time da else ct"
  let ?r = "\<lparr>da_epoch = ce, da_neuron = map int [n..<n + length (da_neuron da)],
           da_time = ?ct, da_data = da_data da, da_attrs = da_attrs da\<rparr>"
  have mk: "xr_DataArray (da_data da) (da_shape da) ce (map int [n..<n + length (da_neuron da)]) ?ct
              (da_attrs da) = Inr ?r"
    using Cons.prems by (simp add: xr_DataArray_def da_shape_def)
  from Cons.IH[of "acc @ [?r]" "n + length (da_neuron da)" ?ct] Cons.prems
  obtain ct' where "concat_loop ce das (acc @ [?r], n + length (da_neuron da), ?ct) =
      Inr ((acc @ [?r]) @ relabel ce (n + length (da_neuron da)) ?ct das,
           (n + length (da_neuron da)) + sum_list (map (\<lambda>d. length (da_neuron d)) das), ct')"
    by auto
  then show ?case
    using mk by (simp add: Let_def add.assoc)
qed

lemma concat_loop_fail:
  assumes "\<exists>da \<in> set das. length (da_epoch da) \<noteq> length ce"
  shows "concat_loop ce das (acc, n, ct) = Inl ValueError"
  using assms
proof (induction das arbitrary: acc n ct)
  case Nil
  then show ?case by simp
next
  case (Cons da das)
  show ?case
  proof (cases "length (da_epoch da) = length ce")
    case True
    then have "\<exists>d \<in> set das. length (da_epoch d) \<noteq> length ce"
      using Cons.prems by auto
    from Cons.IH[OF this] True show ?thesis
      by (simp add: xr_DataArray_def da_shape_def Let_def)
  next
    case False
    then show ?thesis
      by (simp add: xr_DataArray_def da_shape_def Let_def)
  qed
qed

lemma relabel_epoch: "r \<in> set (relabel ce n ct das) \<Longrightarrow> da_epoch r = ce"
  by (induction das arbitrary: n ct) (auto simp: Let_def)

lemma relabel_length: "length (relabel ce n ct das) = length das"
  by (induction das arbitrary: n ct) (auto simp: Let_def)

lemma relabel_time:
  "r \<in> set (relabel ce n ct das) \<Longrightarrow> da_time r = ct \<or> da_time r \<in> da_time ` set das"
  by (induction das arbitrary: n ct) (auto simp: Let_def split: if_splits)

lemma relabel_neuron:
  "concat (map da_neuron (relabel ce n ct das)) =
     map int [n..<n + sum_list (map (\<lambda>d. length (da_neuron d)) das)]"
proof (induction das arbitrary: n ct)
  case Nil
  then show ?case by simp
next
  case (Cons da das)
  have "[n..<n + length (da_neuron da) + sum_list (map (\<lambda>d. length (da_neuron d)) das)] =
        [n..<n + length (da_neuron da)] @
        [n + length (da_neuron da)..<n + length (da_neuron da) + sum_list (map (\<lambda>d. length (da_neuron d)) das)]"
    by (rule upt_add_eq_append) simp
  then show ?case
    using Cons.IH by (simp add: Let_def add.assoc)
qed

lemma align_all_ok:
  assumes "\<forall>da \<in> set das. (da_epoch da = es \<or> distinct (da_epoch da)) \<and>
                           (da_time da = ts \<or> distinct (da_time da))"
  shows "\<exists>al. align_all es ts das = Inr al \<and> map da_neuron al = map da_neuron das \<and>
           length al = length das"
  using assms
proof (induction das)
  case Nil
  then show ?case by simp
next
  case (Cons da das)
  then obtain al where al: "align_all es ts das = Inr al" "map da_neuron al = map da_neuron das"
      "length al = length das"
    by auto
  have "\<exists>d. align_DataArray es ts da = Inr d \<and> da_neuron d = da_neuron da"
    using Cons.prems by (auto simp: align_DataArray_def Let_def)
  then show ?case using al by auto
qed

lemma outer_join_same: "xs \<noteq> [] \<Longrightarrow> \<forall>x \<in> set xs. x = c \<Longrightarrow> outer_join xs = c"
  by (cases xs) (auto simp: outer_join_def)

lemma concat_unfold:
  assumes "das \<noteq> []"
  shows "concat_vasc_occ_dataarrays das =
     (case concat_loop (da_epoch (hd das)) das ([], 0, da_time (hd das)) of
        Inl e \<Rightarrow> Inl e
      | Inr (new_da_list, num_of_neurons, crd_time) \<Rightarrow> xr_concat_neuron new_da_list)"
  using assms by (cases das) (simp_all add: concat_vasc_occ_dataarrays_def)

lemma relabel_distinct:
  assumes "r \<in> set (relabel ce n ct das)" and "distinct ct" and "\<forall>da \<in> set das. distinct (da_time da)"
  shows "distinct (da_time r)"
  using relabel_time[OF assms(1)] assms(2,3) by auto

lemma xr_concat_ok:
  assumes ne: "rl \<noteq> []"
    and ep: "\<forall>r \<in> set rl. da_epoch r = ce"
    and di: "\<forall>r \<in> set rl. distinct (da_time r)"
  shows "\<exists>res. xr_concat_neuron rl = Inr res \<and> da_epoch res = ce \<and>
           da_neuron res = concat (map da_neuron rl) \<and>
           da_time res = outer_join (map da_time rl)"
proof -
  have ej: "outer_join (map da_epoch rl) = ce"
    by (rule outer_join_same) (use ne ep in auto)
  have "\<forall>r \<in> set rl. (da_epoch r = ce \<or> distinct (da_epoch r)) \<and>
                         (da_time r = outer_join (map da_time rl) \<or> distinct (da_time r))"
    using ep di by blast
  from align_all_ok[OF this]
  obtain al where al: "align_all ce (outer_join (map da_time rl)) rl = Inr al"
      "map da_neuron al = map da_neuron rl"
    by blast
  show ?thesis
    using ne by (simp add: xr_concat_neuron_def Let_def ej al)
qed

lemma concat_ok:
  assumes ne: "das \<noteq> []"
    and ep: "\<forall>da \<in> set das. length (da_epoch da) = length (da_epoch (hd das))"
    and di: "\<forall>da \<in> set das. distinct (da_time da)"
  shows "\<exists>res. concat_vasc_occ_dataarrays das = Inr res \<and>
           da_epoch res = da_epoch (hd das) \<and>
           da_neuron res = map int [0..<sum_list (map (\<lambda>d. length (da_neuron d)) das)] \<and>
           da_time res = outer_join (map da_time (relabel (da_epoch (hd das)) 0 (da_time (hd das)) das))"
proof -
  define ce where "ce = da_epoch (hd das)"
  define ct where "ct = da_time (hd das)"
  define rl where "rl = relabel ce 0 ct das"
  have ep': "\<forall>da \<in> set das. length (da_epoch da) = length ce"
    unfolding ce_def by (rule ep)
  from concat_loop_ok[OF ep', of "[]" 0 ct]
  obtain ct' where loop: "concat_loop ce das ([], 0, ct) =
      Inr (rl, sum_list (map (\<lambda>d. length (da_neuron d)) das), ct')"
    unfolding rl_def by auto
  have rlne: "rl \<noteq> []"
    using relabel_length[of ce 0 ct das] ne unfolding rl_def by auto
  have ctd: "distinct ct"
    using ne di unfolding ct_def by simp
  have "\<forall>r \<in> set rl. distinct (da_time r)"
    unfolding rl_def using relabel_distinct[OF _ ctd di] by blast
  moreover have "\<forall>r \<in> set rl. da_epoch r = ce"
    unfolding rl_def using relabel_epoch by blast
  ultimately obtain res where res: "xr_concat_neuron rl = Inr res" "da_epoch res = ce"
      "da_neuron res = concat (map da_neuron rl)" "da_time res = outer_join (map da_time rl)"
    using xr_concat_ok[OF rlne] by blast
  have "concat_vasc_occ_dataarrays das = Inr res"
    using loop res(1) by (simp add: concat_unfold[OF ne] ce_def[symmetric] ct_def[symmetric])
  moreover have "da_neuron res = map int [0..<sum_list (map (\<lambda>d. length (da_neuron d)) das)]"
    using res(3) relabel_neuron[of ce 0 ct das] by (simp add: rl_def)
  ultimately show ?thesis
    using res(2,4) by (simp add: ce_def ct_def rl_def)
qed

lemma concat_fail:
  assumes "das \<noteq> []" and "\<exists>da \<in> set das. length (da_epoch da) \<noteq> length (da_epoch (hd das))"
  shows "concat_vasc_occ_dataarrays das = Inl ValueError"
  using concat_loop_fail[OF assms(2)] by (simp add: concat_unfold[OF assms(1)])

lemma index_union_set: "set (index_union a b) = set a \<union> set b"
  by (auto simp: index_union_def)

lemma foldl_index_union_set:
  "set (foldl index_union a bs) = set a \<union> \<Union> (set ` set bs)"
  by (induction bs arbitrary: a) (auto simp: index_union_set)

lemma outer_join_set: "xs \<noteq> [] \<Longrightarrow> set (outer_join xs) = \<Union> (set ` set xs)"
proof (cases xs)
  case Nil
  then show "xs \<noteq> [] \<Longrightarrow> ?thesis" by simp
next
  case (Cons a bs)
  show ?thesis
  proof (cases "\<forall>i \<in> set xs. i = hd xs")
    case True
    then show ?thesis by (auto simp: outer_join_def Cons)
  next
    case False
    have "outer_join xs = foldl index_union (hd xs) (tl xs)"
      unfolding outer_join_def using False by (rule if_not_P)
    then show ?thesis by (simp add: foldl_index_union_set Cons)
  qed
qed

lemma relabel_same_time:
  assumes "\<forall>da \<in> set das. length (da_time da) = length ct"
    and "r \<in> set (relabel ce n ct das)"
  shows "da_time r = ct"
  using assms by (induction das arbitrary: n) (auto simp: Let_def)

text \<open>
  C2 (as the code has it). The function never compares epoch labels and has no error of
  its own: every record is given the epoch labels of the first record. A record whose
  epoch axis is longer or shorter than the first one's makes the constructor raise
  ValueError; when the lengths agree (and no time coordinate has duplicates) the
  function returns, and the result carries the first record's epoch labels, whatever the
  labels of the other records were.
\<close>

theorem concat_epoch_policy:
  assumes "das \<noteq> []"
  shows "((\<exists>da \<in> set das. length (da_epoch da) \<noteq> length (da_epoch (hd das))) \<longrightarrow>
            concat_vasc_occ_dataarrays das = Inl ValueError) \<and>
         ((\<forall>da \<in> set das. length (da_epoch da) = length (da_epoch (hd das))) \<and>
          (\<forall>da \<in> set das. distinct (da_time da)) \<longrightarrow>
            (\<exists>res. concat_vasc_occ_dataarrays das = Inr res \<and> da_epoch res = da_epoch (hd das)))"
  using concat_fail[OF assms] concat_ok[OF assms] by blast

theorem concat_epoch_policy_witness:
  "concat_vasc_occ_dataarrays
     [const_record [''all''] 1 [0, 1] 7, const_record [''all'', ''run''] 1 [0, 1] 8] =
     Inl ValueError \<and>
   (\<exists>res. concat_vasc_occ_dataarrays
            [const_record [''all''] 1 [0, 1] 7, const_record [''run''] 1 [0, 1] 8] = Inr res \<and>
          da_epoch res = [''all''])"
  using concat_epoch_policy
          [of "[const_record [''all''] 1 [0, 1] 7, const_record [''all'', ''run''] 1 [0, 1] 8]"]
        concat_epoch_policy
          [of "[const_record [''all''] 1 [0, 1] 7, const_record [''run''] 1 [0, 1] 8]"]
  by (simp add: const_record_def)

text \<open>
  C2 as stated fails: two records whose epoch labels are \<open>all\<close> and \<open>run\<close> are merged
  without any error, and the second record's cells appear under the label \<open>all\<close>.
\<close>

theorem concat_epoch_labels_counterexample:
  "set (da_epoch (const_record [''all''] 1 [0, 1] 7)) \<noteq>
     set (da_epoch (const_record [''run''] 1 [0, 1] 8)) \<and>
   concat_vasc_occ_dataarrays
     [const_record [''all''] 1 [0, 1] 7, const_record [''run''] 1 [0, 1] 8] =
   Inr \<lparr>da_epoch = [''all''], da_neuron = [0, 1], da_time = [0, 1],
        da_data = [[[Some 7, Some 7], [Some 8, Some 8]]], da_attrs = None\<rparr>"
  by (simp add: concat_vasc_occ_dataarrays_def const_record_def xr_DataArray_def da_shape_def
      xr_concat_neuron_def outer_join_def index_union_def align_DataArray_def Let_def reindex_def)

text \<open>
  C5 (as the code has it). When every record has as many epochs as the first and no time
  coordinate has duplicates, the function returns also for records of different time
  lengths. Each record is relabelled with the running time coordinate of the loop
  (\<open>assigned_times\<close>), and the labels of the merged time coordinate are those of all the
  assigned coordinates together; they always include the labels of the first record's
  time coordinate. When all records have the time length of the first, the merged time
  coordinate is the first record's.
\<close>

theorem concat_time_policy:
  assumes "das \<noteq> []"
    and "\<forall>da \<in> set das. length (da_epoch da) = length (da_epoch (hd das))"
    and "\<forall>da \<in> set das. distinct (da_time da)"
  shows "\<exists>res. concat_vasc_occ_dataarrays das = Inr res \<and>
           set (da_time res) = \<Union> (set ` set (assigned_times das)) \<and>
           set (da_time (hd das)) \<subseteq> set (da_time res) \<and>
           ((\<forall>da \<in> set das. length (da_time da) = length (da_time (hd das))) \<longrightarrow>
              da_time res = da_time (hd das))"
proof -
  define ct where "ct = da_time (hd das)"
  from concat_ok[OF assms] obtain res where
    res: "concat_vasc_occ_dataarrays das = Inr res" "da_time res = outer_join (assigned_times das)"
    by (auto simp: assigned_times_def)
  have ne: "assigned_times das \<noteq> []"
    using assms(1) relabel_length[of "da_epoch (hd das)" 0 "da_time (hd das)" das]
    by (auto simp: assigned_times_def)
  have hd: "da_time (hd das) \<in> set (assigned_times das)"
    using assms(1) by (cases das) (auto simp: assigned_times_def Let_def)
  have u: "set (da_time res) = \<Union> (set ` set (assigned_times das))"
    using res(2) outer_join_set[OF ne] by simp
  have same: "da_time res = ct" if l: "\<forall>da \<in> set das. length (da_time da) = length ct"
  proof -
    have "\<forall>t \<in> set (assigned_times das). t = ct"
      unfolding assigned_times_def ct_def[symmetric]
      using relabel_same_time[OF l] by auto
    then have "outer_join (assigned_times das) = ct"
      using ne by (intro outer_join_same) auto
    then show ?thesis using res(2) by simp
  qed
  show ?thesis
    using res(1) u hd same unfolding ct_def by blast
qed

theorem concat_time_policy_witness:
  "(\<exists>res. concat_vasc_occ_dataarrays
            [const_record [''all''] 1 [0, 1] 7, const_record [''all''] 1 [0, 1, 2] 8] = Inr res \<and>
     set (da_time res) =
       \<Union> (set ` set (assigned_times
         [const_record [''all''] 1 [0, 1] 7, const_record [''all''] 1 [0, 1, 2] 8])) \<and>
     {0, 1} \<subseteq> set (da_time res)) \<and>
   (\<exists>res. concat_vasc_occ_dataarrays
            [const_record [''all''] 1 [3, 1] 7, const_record [''all''] 2 [4, 2] 8] = Inr res \<and>
     da_time res = [3, 1])"
  using concat_time_policy
          [of "[const_record [''all''] 1 [0, 1] 7, const_record [''all''] 1 [0, 1, 2] 8]"]
        concat_time_policy
          [of "[const_record [''all''] 1 [3, 1] 7, const_record [''all''] 2 [4, 2] 8]"]
  by (simp add: const_record_def) blast

text \<open>
  C5 as stated fails. Of three records with the time coordinates \<open>[0, 1, 2]\<close>, \<open>[0, 1]\<close>
  and \<open>[5, 6]\<close>, the last one has the length of the running coordinate \<open>[0, 1]\<close> and is
  relabelled with it; the merged time coordinate is \<open>[0, 1, 2]\<close>, not the \<open>[5, 6]\<close> of
  the record processed last.
\<close>

theorem concat_time_last_counterexample:
  "da_time (last [const_record [''all''] 1 [0, 1, 2] 7, const_record [''all''] 1 [0, 1] 8,
      const_record [''all''] 1 [5, 6] 9]) = [5, 6] \<and>
   concat_vasc_occ_dataarrays
     [const_record [''all''] 1 [0, 1, 2] 7, const_record [''all''] 1 [0, 1] 8,
      const_record [''all''] 1 [5, 6] 9] =
   Inr \<lparr>da_epoch = [''all''], da_neuron = [0, 1, 2], da_time = [0, 1, 2],
        da_data = [[[Some 7, Some 7, Some 7], [Some 8, Some 8, None], [Some 9, Some 9, None]]],
        da_attrs = None\<rparr>"
  by (simp add: concat_vasc_occ_dataarrays_def const_record_def xr_DataArray_def da_shape_def
      xr_concat_neuron_def outer_join_def index_union_def align_DataArray_def Let_def reindex_def)

text \<open>What a successful call tells about its input and its result.\<close>

lemma align_all_nth:
  assumes "align_all es ts rl = Inr al"
  shows "length al = length rl \<and> (\<forall>k<length rl. align_DataArray es ts (rl ! k) = Inr (al ! k))"
  using assms
proof (induction rl arbitrary: al)
  case Nil
  then show ?case by simp
next
  case (Cons r rl)
  from Cons.prems obtain r' al' where
    r': "align_DataArray es ts r = Inr r'" and al': "align_all es ts rl = Inr al'" and
    al: "al = r' # al'"
    by (auto split: sum.splits)
  from Cons.IH[OF al'] have IH: "length al' = length rl"
    "\<forall>k<length rl. align_DataArray es ts (rl ! k) = Inr (al' ! k)" by auto
  show ?case
    using r' IH by (auto simp: al nth_Cons split: nat.splits)
qed

lemma concat_nth_block:
  assumes "k < length xss" and "j < length (xss ! k)"
  shows "concat xss ! (sum_list (map length (take k xss)) + j) = xss ! k ! j"
  using assms
proof (induction xss arbitrary: k)
  case Nil
  then show ?case by simp
next
  case (Cons xs xss)
  show ?case
  proof (cases k)
    case 0
    then show ?thesis using Cons.prems by (simp add: nth_append)
  next
    case (Suc k')
    then show ?thesis using Cons.prems Cons.IH[of k'] by (simp add: nth_append)
  qed
qed

lemma relabel_nth:
  assumes "k < length das"
  shows "da_data (relabel ce n ct das ! k) = da_data (das ! k) \<and>
         length (da_neuron (relabel ce n ct das ! k)) = length (da_neuron (das ! k))"
  using assms
proof (induction das arbitrary: n ct k)
  case Nil
  then show ?case by simp
next
  case (Cons da das)
  then show ?case by (cases k) (auto simp: Let_def)
qed

lemma concat_Inr_D:
  assumes "concat_vasc_occ_dataarrays das = Inr res"
  shows "das \<noteq> [] \<and> (\<forall>da \<in> set das. length (da_epoch da) = length (da_epoch (hd das)))"
proof -
  have ne: "das \<noteq> []" using assms by (auto simp: concat_vasc_occ_dataarrays_def)
  then show ?thesis using concat_fail[OF ne] assms by auto
qed

lemma xr_concat_Inr_struct:
  assumes "xr_concat_neuron rl = Inr res" and "\<forall>r \<in> set rl. da_epoch r = ce"
  shows "\<exists>al. align_all ce (outer_join (map da_time rl)) rl = Inr al \<and>
           res = \<lparr>da_epoch = ce, da_neuron = concat (map da_neuron al),
                  da_time = outer_join (map da_time rl),
                  da_data = map (\<lambda>e. concat (map (\<lambda>da. da_data da ! e) al)) [0..<length ce],
                  da_attrs = da_attrs (hd al)\<rparr>"
proof -
  have rlne: "rl \<noteq> []" using assms(1) by (auto simp: xr_concat_neuron_def)
  have ej: "outer_join (map da_epoch rl) = ce"
    by (rule outer_join_same) (use rlne assms(2) in auto)
  show ?thesis
  proof (cases "align_all ce (outer_join (map da_time rl)) rl")
    case (Inl e)
    then show ?thesis using assms(1) rlne by (simp add: xr_concat_neuron_def Let_def ej)
  next
    case (Inr al)
    then show ?thesis using assms(1) rlne by (simp add: xr_concat_neuron_def Let_def ej)
  qed
qed

lemma concat_Inr_struct:
  assumes "concat_vasc_occ_dataarrays das = Inr res"
  shows "\<exists>al. align_all (da_epoch (hd das)) (outer_join (assigned_times das))
                (relabel (da_epoch (hd das)) 0 (da_time (hd das)) das) = Inr al \<and>
           res = \<lparr>da_epoch = da_epoch (hd das), da_neuron = concat (map da_neuron al),
                  da_time = outer_join (assigned_times das),
                  da_data = map (\<lambda>e. concat (map (\<lambda>da. da_data da ! e) al))
                              [0..<length (da_epoch (hd das))],
                  da_attrs = da_attrs (hd al)\<rparr>"
proof -
  define ce where "ce = da_epoch (hd das)"
  define ct where "ct = da_time (hd das)"
  define rl where "rl = relabel ce 0 ct das"
  have ne: "das \<noteq> []"
    using concat_Inr_D[OF assms(1)] by blast
  have ep: "\<forall>da \<in> set das. length (da_epoch da) = length ce"
    unfolding ce_def using concat_Inr_D[OF assms(1)] by blast
  from concat_loop_ok[OF ep, of "[]" 0 ct]
  obtain ct' where loop: "concat_loop ce das ([], 0, ct) =
      Inr (rl, sum_list (map (\<lambda>d. length (da_neuron d)) das), ct')"
    unfolding rl_def by auto
  have x: "xr_concat_neuron rl = Inr res"
    using assms(1) loop by (simp add: concat_unfold[OF ne] ce_def[symmetric] ct_def[symmetric])
  have "\<forall>r \<in> set rl. da_epoch r = ce"
    unfolding rl_def using relabel_epoch by blast
  from xr_concat_Inr_struct[OF x this] show ?thesis
    unfolding assigned_times_def rl_def ce_def ct_def .
qed

lemma relabel_nth_time:
  assumes "k < length das"
  shows "da_time (relabel ce n ct das ! k) = map da_time (relabel ce n ct das) ! k \<and>
         da_epoch (relabel ce n ct das ! k) = ce"
  using assms relabel_length[of ce n ct das] relabel_epoch[of "relabel ce n ct das ! k" ce n ct das]
  by simp

lemma cell_offset_eq:
  assumes "length al = length das"
    and "\<forall>i<length das. length (f (al ! i)) = length (da_neuron (das ! i))"
    and "k \<le> length das"
  shows "sum_list (map length (take k (map f al))) = cell_offset das k"
  using assms
proof (induction k)
  case 0
  then show ?case by (simp add: cell_offset_def)
next
  case (Suc k)
  then have k: "k < length das" "k < length al" by auto
  have "take (Suc k) (map f al) = take k (map f al) @ [f (al ! k)]"
    using k by (simp add: take_Suc_conv_app_nth)
  moreover have "take (Suc k) das = take k das @ [das ! k]"
    using k by (simp add: take_Suc_conv_app_nth)
  ultimately show ?case
    using Suc k by (simp add: cell_offset_def)
qed

lemma align_data:
  assumes "align_DataArray ce ts r = Inr a" and "da_epoch r = ce"
  shows "da_data a = (if da_time r = ts then da_data r
                      else map (map (reindex (da_time r) ts None)) (da_data r)) \<and>
         da_neuron a = da_neuron r"
  using assms by (auto simp: align_DataArray_def Let_def split: if_splits)

text \<open>
  C4. When the concatenation returns, the cell coordinate of the result is
  \<open>0, 1, \<dots>, n0 + n1 + \<dots> - 1\<close>, and record \<open>k\<close> occupies the block that starts after the
  cells of the records before it (\<open>cell_offset\<close>): its cell \<open>j\<close> has the index
  \<open>cell_offset das k + j\<close> and holds, in every epoch, the values of that cell (re-indexed
  to the merged time coordinate when the record's own differs from it).
\<close>

theorem concat_cell_indices:
  assumes ok: "concat_vasc_occ_dataarrays das = Inr res"
    and wf: "\<forall>da \<in> set das. wf_DataArray da"
  shows "da_neuron res = map int [0..<sum_list (map (\<lambda>d. length (da_neuron d)) das)] \<and>
   (\<forall>k<length das. \<forall>j<length (da_neuron (das ! k)).
      da_neuron res ! (cell_offset das k + j) = int (cell_offset das k + j) \<and>
      (\<forall>e<length (da_epoch res).
         da_data res ! e ! (cell_offset das k + j) =
           (if assigned_times das ! k = da_time res then da_data (das ! k) ! e ! j
            else reindex (assigned_times das ! k) (da_time res) None (da_data (das ! k) ! e ! j))))"
proof -
  define ce where "ce = da_epoch (hd das)"
  define rl where "rl = relabel ce 0 (da_time (hd das)) das"
  define ts where "ts = outer_join (assigned_times das)"
  have ne: "das \<noteq> []" using concat_Inr_D[OF ok] by blast
  have ep: "\<forall>da \<in> set das. length (da_epoch da) = length ce"
    unfolding ce_def using concat_Inr_D[OF ok] by blast
  have di_or: True by simp
  from concat_Inr_struct[OF ok] obtain al where
    al: "align_all ce ts rl = Inr al" and
    res: "res = \<lparr>da_epoch = ce, da_neuron = concat (map da_neuron al), da_time = ts,
                  da_data = map (\<lambda>e. concat (map (\<lambda>da. da_data da ! e) al)) [0..<length ce],
                  da_attrs = da_attrs (hd al)\<rparr>"
    unfolding ce_def rl_def ts_def by blast
  have len_rl: "length rl = length das" unfolding rl_def by (rule relabel_length)
  from align_all_nth[OF al] have len_al: "length al = length das"
    and al_nth: "\<forall>k<length das. align_DataArray ce ts (rl ! k) = Inr (al ! k)"
    using len_rl by auto
  have at: "assigned_times das = map da_time rl"
    unfolding assigned_times_def rl_def ce_def ..
  have al_k: "da_neuron (al ! k) = da_neuron (rl ! k) \<and>
              da_data (al ! k) = (if assigned_times das ! k = ts then da_data (das ! k)
                 else map (map (reindex (assigned_times das ! k) ts None)) (da_data (das ! k)))"
    if k: "k < length das" for k
  proof -
    have e: "da_epoch (rl ! k) = ce" and t: "da_time (rl ! k) = assigned_times das ! k"
      using relabel_nth_time[OF k, of ce 0 "da_time (hd das)"] unfolding rl_def[symmetric] at by auto
    have d: "da_data (rl ! k) = da_data (das ! k)"
      using relabel_nth[OF k, of ce 0 "da_time (hd das)"] unfolding rl_def[symmetric] by simp
    from align_data[OF al_nth[rule_format, OF k] e] show ?thesis
      unfolding t d by simp
  qed
  have first: "da_neuron res = map int [0..<sum_list (map (\<lambda>d. length (da_neuron d)) das)]"
  proof -
    have "map da_neuron al = map da_neuron rl"
      using al_k len_al len_rl by (auto intro!: nth_equalityI)
    then show ?thesis
      using relabel_neuron[of ce 0 "da_time (hd das)" das] by (simp add: res rl_def)
  qed
  have rest: "da_neuron res ! (cell_offset das k + j) = int (cell_offset das k + j) \<and>
      (\<forall>e<length (da_epoch res).
         da_data res ! e ! (cell_offset das k + j) =
           (if assigned_times das ! k = da_time res then da_data (das ! k) ! e ! j
            else reindex (assigned_times das ! k) (da_time res) None (da_data (das ! k) ! e ! j)))"
    if k: "k < length das" and j: "j < length (da_neuron (das ! k))" for k j
  proof
    have "cell_offset das k + length (da_neuron (das ! k)) = cell_offset das (Suc k)"
      using k by (simp add: cell_offset_def take_Suc_conv_app_nth)
    also have "\<dots> \<le> sum_list (map (\<lambda>d. length (da_neuron d)) das)"
    proof -
      have "das = take (Suc k) das @ drop (Suc k) das" by simp
      then have "sum_list (map (\<lambda>d. length (da_neuron d)) das) =
          cell_offset das (Suc k) + sum_list (map (\<lambda>d. length (da_neuron d)) (drop (Suc k) das))"
        unfolding cell_offset_def by (metis map_append sum_list.append)
      then show ?thesis by simp
    qed
    finally have "cell_offset das k + j < sum_list (map (\<lambda>d. length (da_neuron d)) das)"
      using j by simp
    then show "da_neuron res ! (cell_offset das k + j) = int (cell_offset das k + j)"
      unfolding first by simp
  next
    show "\<forall>e<length (da_epoch res).
         da_data res ! e ! (cell_offset das k + j) =
           (if assigned_times das ! k = da_time res then da_data (das ! k) ! e ! j
            else reindex (assigned_times das ! k) (da_time res) None (da_data (das ! k) ! e ! j))"
    proof (intro allI impI)
      fix e assume "e < length (da_epoch res)"
      then have e: "e < length ce" by (simp add: res)
      have wfi: "length (da_data (das ! i)) = length ce \<and>
                 length (da_data (das ! i) ! e) = length (da_neuron (das ! i))"
        if "i < length das" for i
      proof -
        have m: "das ! i \<in> set das" using that by simp
        then have w: "wf_DataArray (das ! i)" using wf by blast
        have l: "length (da_data (das ! i)) = length ce"
          using w ep m by (simp add: wf_DataArray_def)
        moreover have "da_data (das ! i) ! e \<in> set (da_data (das ! i))"
          using l e by simp
        ultimately show ?thesis using w by (simp add: wf_DataArray_def)
      qed
      let ?f = "\<lambda>da. da_data da ! e"
      have lens: "\<forall>i<length das. length (?f (al ! i)) = length (da_neuron (das ! i))"
        using al_k wfi e by (auto simp: nth_map)
      have off: "sum_list (map length (take k (map ?f al))) = cell_offset das k"
        by (rule cell_offset_eq[OF len_al lens]) (use k in simp)
      have kk: "k < length (map ?f al)" using k len_al by simp
      have jj: "j < length (map ?f al ! k)" using lens k j len_al by simp
      have "da_data res ! e ! (cell_offset das k + j) = concat (map ?f al) ! (cell_offset das k + j)"
        using e by (simp add: res)
      also have "\<dots> = map ?f al ! k ! j"
        using concat_nth_block[OF kk jj] unfolding off .
      also have "\<dots> = da_data (al ! k) ! e ! j"
        using k len_al by simp
      also have "\<dots> = (if assigned_times das ! k = ts then da_data (das ! k) ! e ! j
            else reindex (assigned_times das ! k) ts None (da_data (das ! k) ! e ! j))"
        using al_k[OF k] wfi[OF k] e j by (simp add: nth_map)
      finally show "da_data res ! e ! (cell_offset das k + j) =
           (if assigned_times das ! k = da_time res then da_data (das ! k) ! e ! j
            else reindex (assigned_times das ! k) (da_time res) None (da_data (das ! k) ! e ! j))"
        by (simp add: res)
    qed
  qed
  show ?thesis using first rest by blast
qed

lemma fov_pair_concat: "concat_vasc_occ_dataarrays fov_pair = Inr fov_pair_merged"
  by (simp add: concat_vasc_occ_dataarrays_def const_record_def xr_DataArray_def da_shape_def
      xr_concat_neuron_def outer_join_def index_union_def align_DataArray_def Let_def reindex_def upt_rec
      numeral_eq_Suc fov_pair_def fov_pair_merged_def)

lemma fov_pair_wf: "\<forall>da \<in> set fov_pair. wf_DataArray da"
  by (simp add: fov_pair_def const_record_def wf_DataArray_def)

text \<open>
  Two records with 3 and 5 cells: the result has the cell indices \<open>0, \<dots>, 7\<close>, and the
  second record's cells are at \<open>3, \<dots>, 7\<close>.
\<close>

theorem concat_cell_indices_witness:
  "concat_vasc_occ_dataarrays fov_pair = Inr fov_pair_merged \<and>
   wf_DataArray (fov_pair ! 0) \<and> wf_DataArray (fov_pair ! 1) \<and>
   da_neuron fov_pair_merged = map int [0..<8] \<and>
   cell_offset fov_pair 1 = 3 \<and>
   da_neuron fov_pair_merged ! (3 + 0) = 3 \<and>
   da_data fov_pair_merged ! 0 ! (3 + 0) = da_data (fov_pair ! 1) ! 0 ! 0 \<and>
   da_neuron fov_pair_merged ! (3 + 4) = 7 \<and>
   da_data fov_pair_merged ! 0 ! (3 + 4) = da_data (fov_pair ! 1) ! 0 ! 4"
proof -
  have off: "cell_offset fov_pair 1 = 3"
    by (simp add: cell_offset_def fov_pair_def const_record_def)
  have tot: "sum_list (map (\<lambda>d. length (da_neuron d)) fov_pair) = 8"
    by (simp add: fov_pair_def const_record_def)
  have tm: "assigned_times fov_pair ! 1 = da_time fov_pair_merged"
    by (simp add: assigned_times_def fov_pair_def const_record_def fov_pair_merged_def Let_def)
  have n1: "length (da_neuron (fov_pair ! 1)) = 5" "length fov_pair = 2"
      "length (da_epoch fov_pair_merged) = 1"
    by (simp_all add: fov_pair_def const_record_def fov_pair_merged_def)
  note c = concat_cell_indices[OF fov_pair_concat fov_pair_wf]
  have a: "da_neuron fov_pair_merged = map int [0..<8]"
    using c unfolding tot by blast
  have b: "da_neuron fov_pair_merged ! (3 + j) = int (3 + j) \<and>
           da_data fov_pair_merged ! 0 ! (3 + j) = da_data (fov_pair ! 1) ! 0 ! j" if "j < 5" for j
  proof -
    have k: "1 < length fov_pair" and j: "j < length (da_neuron (fov_pair ! 1))"
      and e: "0 < length (da_epoch fov_pair_merged)"
      using n1 that by simp_all
    from c have "da_neuron fov_pair_merged ! (cell_offset fov_pair 1 + j) =
          int (cell_offset fov_pair 1 + j) \<and>
        (\<forall>e<length (da_epoch fov_pair_merged).
           da_data fov_pair_merged ! e ! (cell_offset fov_pair 1 + j) =
             (if assigned_times fov_pair ! 1 = da_time fov_pair_merged
              then da_data (fov_pair ! 1) ! e ! j
              else reindex (assigned_times fov_pair ! 1) (da_time fov_pair_merged) None
                     (da_data (fov_pair ! 1) ! e ! j)))"
      using k j by blast
    then show ?thesis
      unfolding off using e tm by simp
  qed
  have w: "wf_DataArray (fov_pair ! 0)" "wf_DataArray (fov_pair ! 1)"
    using fov_pair_wf by (simp_all add: fov_pair_def)
  show ?thesis
    using fov_pair_concat w off a b[of 0] b[of 4] by simp
qed

section \<open>The peak finder\<close>

text \<open>
  What the spike detectors need of \<open>peakutils.indexes\<close>: an integer result is increasing,
  lies inside the row, and any two of its peaks are more than \<open>min_dist\<close> samples apart
  (by the removal loop when it runs, and because two samples next to each other cannot
  both be sign changes when it does not).
\<close>

lemma assign_length [simp]: "length (assign xs idx v) = length xs"
  unfolding assign_def by (induction idx arbitrary: xs) simp_all

lemma assign_nth:
  "i < length xs \<Longrightarrow> assign xs idx v ! i = (if i \<in> set idx then v else xs ! i)"
  unfolding assign_def
proof (induction idx arbitrary: xs)
  case Nil
  then show ?case by simp
next
  case (Cons a idx)
  then show ?case by (auto simp: nth_list_update)
qed

lemma set_slice_length [simp]: "length (set_slice rem lo hi v) = length rem"
  by (simp add: set_slice_def)

lemma set_slice_nth:
  "i < length rem \<Longrightarrow> set_slice rem lo hi v ! i = (if lo \<le> i \<and> i < hi then v else rem ! i)"
  by (simp add: set_slice_def)

lemma knock_out_length [simp]: "length (knock_out d peak rem) = length rem"
  by (simp add: knock_out_def)

lemma knock_out_nth:
  "i < length rem \<Longrightarrow>
   knock_out d peak rem ! i =
     (if rem ! peak then rem ! i
      else if i = peak then False
      else if peak - d \<le> i \<and> i < peak + d + 1 then True else rem ! i)"
  by (simp add: knock_out_def nth_list_update set_slice_nth)

lemma remove_close_length [simp]: "length (remove_close d hs rem) = length rem"
  by (induction hs arbitrary: rem) simp_all

lemma remove_close_mono:
  "i < length rem \<Longrightarrow> rem ! i \<Longrightarrow> remove_close d hs rem ! i"
proof (induction hs arbitrary: rem)
  case Nil
  then show ?case by simp
next
  case (Cons peak hs)
  have "knock_out d peak rem ! i"
    using Cons.prems by (auto simp: knock_out_nth)
  moreover have "i < length (knock_out d peak rem)"
    using Cons.prems by simp
  ultimately have "remove_close d hs (knock_out d peak rem) ! i"
    using Cons.IH by blast
  then show ?case by simp
qed

lemma knock_out_apart:
  assumes pk: "peak < length rem" and X: "X \<subseteq> {..<length rem}" and sa: "standing_apart d rem X"
  shows "standing_apart d (knock_out d peak rem) (insert peak X)"
proof (cases "rem ! peak")
  case True
  then have "knock_out d peak rem = rem" by (simp add: knock_out_def)
  then show ?thesis using sa True by (auto simp: standing_apart_def)
next
  case False
  show ?thesis
    unfolding standing_apart_def
  proof (intro ballI impI allI)
    fix x i
    assume x: "x \<in> insert peak X" and nx: "\<not> knock_out d peak rem ! x"
      and i: "i < length (knock_out d peak rem)"
      and c: "i \<noteq> x \<and> x \<le> i + d \<and> i \<le> x + d"
    have xl: "x < length rem" using x X pk by auto
    have il: "i < length rem" using i by simp
    show "knock_out d peak rem ! i"
    proof (cases "x = peak")
      case True
      then show ?thesis using False c il by (auto simp: knock_out_nth)
    next
      case xp: False
      then have xX: "x \<in> X" using x by simp
      have nrx: "\<not> rem ! x"
        using nx False xp xl by (auto simp: knock_out_nth split: if_splits)
      have ri: "rem ! i"
        using sa xX nrx il c unfolding standing_apart_def by blast
      have "i \<noteq> peak" using ri False by auto
      then show ?thesis
        using False ri il by (auto simp: knock_out_nth)
    qed
  qed
qed

lemma remove_close_apart:
  assumes "set hs \<subseteq> {..<length rem}" and "X \<subseteq> {..<length rem}" and "standing_apart d rem X"
  shows "standing_apart d (remove_close d hs rem) (X \<union> set hs)"
  using assms
proof (induction hs arbitrary: rem X)
  case Nil
  then show ?case by simp
next
  case (Cons peak hs)
  have pk: "peak < length rem" using Cons.prems(1) by simp
  have step: "standing_apart d (knock_out d peak rem) (insert peak X)"
    by (rule knock_out_apart[OF pk Cons.prems(2) Cons.prems(3)])
  have a: "set hs \<subseteq> {..<length (knock_out d peak rem)}"
    using Cons.prems(1) by simp
  have b: "insert peak X \<subseteq> {..<length (knock_out d peak rem)}"
    using Cons.prems(2) pk by simp
  have "standing_apart d (remove_close d hs (knock_out d peak rem)) (insert peak X \<union> set hs)"
    by (rule Cons.IH[OF a b step])
  moreover have "insert peak X \<union> set hs = X \<union> set (peak # hs)" by auto
  ultimately show ?case by simp
qed

lemma fix_leftmost_length [simp]: "length (fst (fix_leftmost (dy, ps))) = length dy"
  by (simp add: fix_leftmost_def)

lemma fix_rightmost_length [simp]: "length (fst (fix_rightmost (dy, ps))) = length dy"
  by (simp add: fix_rightmost_def)

lemma fix_plateau_length [simp]: "length (fix_plateau p dy) = length dy"
  by (simp add: fix_plateau_def Let_def)

lemma fold_fix_plateau_length [simp]: "length (fold fix_plateau ps dy) = length dy"
  by (induction ps arbitrary: dy) simp_all

lemma fill_plateaus_length [simp]: "length (fill_plateaus dy zs) = length dy"
proof (cases "zs = []")
  case True
  then show ?thesis by (simp add: fill_plateaus_def)
next
  case False
  obtain d1 p1 where l: "fix_leftmost (dy, chains zs) = (d1, p1)" by (cases "fix_leftmost (dy, chains zs)")
  obtain d2 p2 where r: "fix_rightmost (d1, p1) = (d2, p2)" by (cases "fix_rightmost (d1, p1)")
  have "length d1 = length dy" using fix_leftmost_length[of dy "chains zs"] l by simp
  moreover have "length d2 = length d1" using fix_rightmost_length[of d1 p1] r by simp
  ultimately show ?thesis using False l r by (simp add: fill_plateaus_def)
qed

lemma np_diff_length [simp]: "length (np_diff y) = length y - 1"
  by (simp add: np_diff_def)

lemma np_where_props:
  "sorted (np_where P n)" "distinct (np_where P n)" "set (np_where P n) = {i. i < n \<and> P i}"
  by (auto simp: np_where_def sorted_wrt_filter)

lemma sign_change_apart:
  assumes "length dy' = n - 1"
    and p: "p < n" "(dy' @ [0::rat]) ! p < 0" "(0 # dy') ! p > 0"
    and q: "q < n" "(dy' @ [0]) ! q < 0" "(0 # dy') ! q > 0"
    and "p < q"
  shows "p + 2 \<le> q"
proof (rule ccontr)
  assume "\<not> p + 2 \<le> q"
  then have qp: "q = Suc p" using \<open>p < q\<close> by simp
  have pl: "p < length dy'" using assms(1) q(1) qp by simp
  have "dy' ! p < 0" using p(2) pl by (simp add: nth_append)
  moreover have "dy' ! p > 0" using q(3) qp by simp
  ultimately show False by simp
qed

lemma indexes_IntIndex:
  assumes "indexes y th md = Inr (IntIndex ps)"
  shows "sorted ps \<and> distinct ps \<and> (\<forall>p \<in> set ps. p < length y) \<and>
         (\<forall>p \<in> set ps. \<forall>q \<in> set ps. p < q \<longrightarrow> md < int (q - p))"
proof -
  define n where "n = length y"
  define thres' where "thres' = th * (Max (set y) - Min (set y)) + Min (set y)"
  define dy where "dy = np_diff y"
  define zeros where "zeros = np_where (\<lambda>i. dy ! i = 0) (length dy)"
  define dy' where "dy' = fill_plateaus dy zeros"
  define P where "P = (\<lambda>i. (dy' @ [0]) ! i < 0 \<and> (0 # dy') ! i > 0 \<and> y ! i > thres')"
  define peaks where "peaks = np_where P n"
  define highest where "highest = rev (sort_key (\<lambda>i. y ! i) peaks)"
  define rem where "rem = assign (replicate n True) peaks False"
  define rem' where "rem' = remove_close (nat md) highest rem"
  have ne: "y \<noteq> []" and nf: "length zeros \<noteq> length y - 1"
    using assms by (auto simp: indexes_def Let_def zeros_def dy_def split: if_splits)
  have ps: "ps = (if length peaks > 1 \<and> md > 1 then np_where (\<lambda>i. \<not> rem' ! i) n else peaks)"
    using assms ne nf
    by (auto simp: indexes_def Let_def zeros_def[symmetric] dy_def[symmetric] dy'_def[symmetric]
        thres'_def[symmetric] P_def[symmetric] n_def[symmetric] peaks_def[symmetric]
        highest_def[symmetric] rem_def[symmetric] rem'_def[symmetric] split: if_splits)
  have ldy': "length dy' = n - 1" by (simp add: dy'_def dy_def n_def)
  show ?thesis
  proof (cases "length peaks > 1 \<and> md > 1")
    case False
    have pp: "ps = peaks" unfolding ps using False by (rule if_not_P)
    have basic: "sorted ps \<and> distinct ps \<and> (\<forall>p \<in> set ps. p < length y)"
      unfolding pp peaks_def using np_where_props[of P n] by (auto simp: n_def)
    have "md < int (q - p)" if "p \<in> set ps" "q \<in> set ps" "p < q" for p q
    proof -
      have pq: "p \<in> set peaks" "q \<in> set peaks" "p \<noteq> q" using that pp by auto
      have "distinct peaks" unfolding peaks_def by (rule np_where_props)
      then have "length peaks > 1"
        using pq by (cases peaks; cases "tl peaks") auto
      then have md: "md \<le> 1" using False by simp
      have "p < n \<and> P p" "q < n \<and> P q"
        using pq np_where_props(3)[of P n] unfolding peaks_def by auto
      then have "p + 2 \<le> q"
        using sign_change_apart[OF ldy', of p q] that(3) unfolding P_def by blast
      then show ?thesis using md by linarith
    qed
    then show ?thesis using basic by blast
  next
    case True
    have pp: "ps = np_where (\<lambda>i. \<not> rem' ! i) n" unfolding ps using True by (rule if_P)
    have basic: "sorted ps \<and> distinct ps \<and> (\<forall>p \<in> set ps. p < length y)"
      unfolding pp using np_where_props[of "\<lambda>i. \<not> rem' ! i" n] by (auto simp: n_def)
    have lrem: "length rem = n" by (simp add: rem_def)
    have pk: "set peaks \<subseteq> {..<n}" unfolding peaks_def using np_where_props(3)[of P n] by auto
    have hs: "set highest = set peaks" by (simp add: highest_def)
    have init: "standing_apart (nat md) rem {}" by (simp add: standing_apart_def)
    have "standing_apart (nat md) rem' ({} \<union> set highest)"
      unfolding rem'_def by (rule remove_close_apart) (use hs pk lrem init in auto)
    then have sa: "standing_apart (nat md) rem' (set peaks)" using hs by simp
    have lrem': "length rem' = n" by (simp add: rem'_def lrem)
    have inpk: "i \<in> set peaks" if "i < n" "\<not> rem' ! i" for i
    proof (rule ccontr)
      assume "i \<notin> set peaks"
      then have "rem ! i" using that(1) by (simp add: rem_def assign_nth)
      then have "rem' ! i" unfolding rem'_def using that(1) lrem by (simp add: remove_close_mono)
      then show False using that(2) by simp
    qed
    have "md < int (q - p)" if "p \<in> set ps" "q \<in> set ps" "p < q" for p q
    proof -
      have p: "p < n" "\<not> rem' ! p" and q: "q < n" "\<not> rem' ! q"
        using that np_where_props(3)[of "\<lambda>i. \<not> rem' ! i" n] unfolding pp by auto
      have "p \<in> set peaks" using inpk p by blast
      then have "\<forall>i<length rem'. i \<noteq> p \<and> p \<le> i + nat md \<and> i \<le> p + nat md \<longrightarrow> rem' ! i"
        using sa p(2) unfolding standing_apart_def by blast
      then have "\<not> (q \<noteq> p \<and> p \<le> q + nat md \<and> q \<le> p + nat md)"
        using q lrem' by blast
      then have "p + nat md < q" using that(3) by simp
      then show ?thesis by linarith
    qed
    then show ?thesis using basic by blast
  qed
qed

section \<open>The spike matrix\<close>

text \<open>
  Reading the spike matrix after the loop: an entry is 1 exactly where the peak finder put
  a peak of that row, and an exception of the loop is a ValueError of the peak finder or
  an IndexError of the assignment.
\<close>

lemma flat_index_eq:
  assumes "t < c" and "p < (c::nat)"
  shows "row * c + t = row0 * c + p \<longleftrightarrow> row = row0 \<and> t = p"
proof
  assume e: "row * c + t = row0 * c + p"
  have "(row * c + t) div c = row" "(row0 * c + p) div c = row0" using assms by simp_all
  then have "row = row0" using e by simp
  then show "row = row0 \<and> t = p" using e by simp
qed simp

lemma flat_index_less:
  assumes "row < r" and "t < (c::nat)"
  shows "row * c + t < r * c"
proof -
  have "row * c + t < Suc row * c" using assms(2) by simp
  also have "\<dots> \<le> r * c" using assms(1) by (intro mult_le_mono1) simp
  finally show ?thesis .
qed

lemma fold_update_length [simp]:
  "length (fold (\<lambda>p es. es[f p := v]) ps es) = length es"
  by (induction ps arbitrary: es) simp_all

lemma fold_update_nth:
  "j < length es \<Longrightarrow>
   fold (\<lambda>p es. es[f p := v]) ps es ! j = (if j \<in> f ` set ps then v else es ! j)"
proof (induction ps arbitrary: es)
  case Nil
  then show ?case by simp
next
  case (Cons p ps)
  then show ?case by (auto simp: nth_list_update)
qed

lemma set_item_Inr:
  assumes ok: "set_item a row0 idx v = Inr a1"
    and sh: "shape a = [r, c]" and len: "length (elems a) = r * c"
  shows "\<exists>ps. idx = IntIndex ps \<and> (\<forall>p \<in> set ps. p < c) \<and>
           shape a1 = [r, c] \<and> length (elems a1) = r * c \<and>
           (\<forall>row<r. \<forall>t<c. get_item a1 row t =
              (if row = row0 \<and> t \<in> set ps then v else get_item a row t))"
proof -
  obtain ps where idx: "idx = IntIndex ps"
    using ok by (cases idx) (auto simp: set_item_def)
  have pc: "\<forall>p \<in> set ps. p < c"
    using ok sh by (auto simp: set_item_def idx Let_def split: if_splits)
  have a1: "a1 = a\<lparr>elems := fold (\<lambda>p es. es[row0 * c + p := v]) ps (elems a)\<rparr>"
    using ok sh pc by (auto simp: set_item_def idx Let_def split: if_splits)
  have g: "get_item a1 row t = (if row = row0 \<and> t \<in> set ps then v else get_item a row t)"
    if "row < r" "t < c" for row t
  proof -
    have j: "row * c + t < length (elems a)" using that len flat_index_less by simp
    have "(row * c + t \<in> (\<lambda>p. row0 * c + p) ` set ps) \<longleftrightarrow> (row = row0 \<and> t \<in> set ps)"
      using pc that(2) flat_index_eq[of t c _ row row0] by auto
    then show ?thesis
      using fold_update_nth[OF j, of "\<lambda>p. row0 * c + p" v ps]
      by (simp add: get_item_def a1 sh)
  qed
  show ?thesis using idx pc g by (auto simp: a1 sh len)
qed

lemma row_cells_length:
  assumes "shape a = [r, c]" and "length (elems a) = r * c"
  shows "length (row_cells a) = r \<and> (\<forall>cell \<in> set (row_cells a). length cell = c)"
proof -
  have "length (take c (drop (i * c) (elems a))) = c" if "i < r" for i
  proof -
    have "Suc i * c \<le> r * c" using that by (intro mult_le_mono1) simp
    then show ?thesis using assms(2) by simp
  qed
  then show ?thesis using assms(1) by (auto simp: row_cells_def)
qed

lemma spikes_loop_Inr:
  assumes "spikes_loop th md (enumerate k rows) a = Inr a'"
    and "shape a = [r, c]" and "length (elems a) = r * c"
  shows "shape a' = [r, c] \<and> length (elems a') = r * c \<and>
         (\<forall>i<length rows. \<exists>ps. indexes (rows ! i) th md = Inr (IntIndex ps) \<and> (\<forall>p \<in> set ps. p < c)) \<and>
         (\<forall>row<r. \<forall>t<c. get_item a' row t =
            (if k \<le> row \<and> row < k + length rows \<and>
                (\<exists>ps. indexes (rows ! (row - k)) th md = Inr (IntIndex ps) \<and> t \<in> set ps)
             then 1 else get_item a row t))"
  using assms
proof (induction rows arbitrary: k a)
  case Nil
  then show ?case by simp
next
  case (Cons cell rows)
  from Cons.prems(1) obtain idx a1 where
    ix: "indexes cell th md = Inr idx" and si: "set_item a k idx 1 = Inr a1" and
    rest: "spikes_loop th md (enumerate (Suc k) rows) a1 = Inr a'"
    by (auto split: sum.splits)
  from set_item_Inr[OF si Cons.prems(2,3)] obtain ps where
    idx: "idx = IntIndex ps" and pc: "\<forall>p \<in> set ps. p < c" and
    sh1: "shape a1 = [r, c]" and len1: "length (elems a1) = r * c" and
    g1: "\<forall>row<r. \<forall>t<c. get_item a1 row t =
              (if row = k \<and> t \<in> set ps then 1 else get_item a row t)"
    by blast
  note IH = Cons.IH[OF rest sh1 len1]
  have A: "shape a' = [r, c] \<and> length (elems a') = r * c" using IH by blast
  have B: "\<forall>i<length (cell # rows). \<exists>ps. indexes ((cell # rows) ! i) th md = Inr (IntIndex ps) \<and>
             (\<forall>p \<in> set ps. p < c)"
  proof (intro allI impI)
    fix i assume "i < length (cell # rows)"
    then show "\<exists>ps. indexes ((cell # rows) ! i) th md = Inr (IntIndex ps) \<and> (\<forall>p \<in> set ps. p < c)"
      using IH ix idx pc by (cases i) auto
  qed
  have C: "get_item a' row t =
            (if k \<le> row \<and> row < k + length (cell # rows) \<and>
                (\<exists>ps. indexes ((cell # rows) ! (row - k)) th md = Inr (IntIndex ps) \<and> t \<in> set ps)
             then 1 else get_item a row t)" if rt: "row < r" "t < c" for row t
  proof -
    have s: "get_item a' row t =
            (if Suc k \<le> row \<and> row < Suc k + length rows \<and>
                (\<exists>ps. indexes (rows ! (row - Suc k)) th md = Inr (IntIndex ps) \<and> t \<in> set ps)
             then 1 else get_item a1 row t)"
      using IH rt by blast
    have g: "get_item a1 row t = (if row = k \<and> t \<in> set ps then 1 else get_item a row t)"
      using g1 rt by blast
    show ?thesis
    proof (cases "row = k")
      case True
      then show ?thesis using s g ix idx by simp
    next
      case False
      show ?thesis
      proof (cases "Suc k \<le> row")
        case True
        then have "row - k = Suc (row - Suc k)" by simp
        then have "(cell # rows) ! (row - k) = rows ! (row - Suc k)"
          by (simp only: nth_Cons_Suc)
        then show ?thesis using s g False True by auto
      next
        case False
        then show ?thesis using s g \<open>row \<noteq> k\<close> by auto
      qed
    qed
  qed
  show ?case using A B C by blast
qed

lemma indexes_error: "indexes y th md = Inl e \<Longrightarrow> e = ValueError"
  by (auto simp: indexes_def Let_def split: if_splits)

lemma set_item_error: "set_item a row idx v = Inl e \<Longrightarrow> e = IndexError"
  by (auto simp: set_item_def Let_def split: index_array.splits if_splits)

lemma spikes_loop_error:
  "spikes_loop th md rows a = Inl e \<Longrightarrow> e = ValueError \<or> e = IndexError"
proof (induction rows arbitrary: a)
  case Nil
  then show ?case by simp
next
  case (Cons rc rows)
  obtain row cell where rc: "rc = (row, cell)" by (cases rc)
  show ?case
    using Cons.prems Cons.IH indexes_error set_item_error
    by (auto simp: rc split: sum.splits)
qed

lemma py_int_of_int [simp]: "py_int (of_int n) = n"
  by (simp add: py_int_def)

lemma zeros_like_get:
  assumes "shape a = [r, c]" and "length (elems a) = r * c" and "row < r" and "t < c"
  shows "get_item (zeros_like a) row t = 0"
  using flat_index_less[OF assms(3,4)] assms(1,2) by (simp add: get_item_def zeros_like_def)

lemma locate_spikes_marks:
  assumes ok: "locate_spikes_peakutils data fps thresh = Inr all_spikes"
    and sh: "shape data = [r, c]" and len: "length (elems data) = r * c"
  shows "shape all_spikes = [r, c] \<and>
         (\<forall>row<r. \<exists>ps. indexes (row_cells data ! row) thresh (py_int fps) = Inr (IntIndex ps) \<and>
             (\<forall>t<c. get_item all_spikes row t = (if t \<in> set ps then 1 else 0)))"
proof -
  have loop: "spikes_loop thresh (py_int fps) (enumerate 0 (row_cells data)) (zeros_like data)
      = Inr all_spikes"
    using ok by (simp add: locate_spikes_peakutils_def Let_def split: if_splits)
  have zsh: "shape (zeros_like data) = [r, c]" "length (elems (zeros_like data)) = r * c"
    using sh len by (simp_all add: zeros_like_def)
  have rl: "length (row_cells data) = r" using row_cells_length[OF sh len] by simp
  note L = spikes_loop_Inr[OF loop zsh]
  have "\<exists>ps. indexes (row_cells data ! row) thresh (py_int fps) = Inr (IntIndex ps) \<and>
             (\<forall>t<c. get_item all_spikes row t = (if t \<in> set ps then 1 else 0))"
    if row: "row < r" for row
  proof -
    from L row rl obtain ps where
      ps: "indexes (row_cells data ! row) thresh (py_int fps) = Inr (IntIndex ps)"
      by auto
    have "get_item all_spikes row t = (if t \<in> set ps then 1 else 0)" if t: "t < c" for t
    proof -
      have "get_item all_spikes row t =
          (if 0 \<le> row \<and> row < 0 + length (row_cells data) \<and>
              (\<exists>ps. indexes (row_cells data ! (row - 0)) thresh (py_int fps) = Inr (IntIndex ps) \<and>
                 t \<in> set ps)
           then 1 else get_item (zeros_like data) row t)"
        using L row t by blast
      then show ?thesis
        using ps row rl zeros_like_get[OF sh len row t] by auto
    qed
    then show ?thesis using ps by blast
  qed
  then show ?thesis using L by blast
qed

lemma indexes_nonflat:
  assumes "Suc i < length y" and "y ! Suc i \<noteq> y ! i"
  shows "\<exists>ps. indexes y th md = Inr (IntIndex ps) \<and> (\<forall>p \<in> set ps. p < length y)"
proof -
  define dy where "dy = np_diff y"
  have i: "i < length dy" using assms(1) by (simp add: dy_def)
  have "dy ! i \<noteq> 0" using assms i by (simp add: dy_def np_diff_def)
  then have "length (filter (\<lambda>i. dy ! i = 0) [0..<length dy]) < length [0..<length dy]"
    using i by (intro length_filter_less[of i]) auto
  then have nf: "length (np_where (\<lambda>i. dy ! i = 0) (length dy)) \<noteq> length y - 1"
    by (simp add: np_where_def dy_def)
  have ne: "y \<noteq> []" using assms(1) by auto
  have "\<exists>ps. indexes y th md = Inr (IntIndex ps)"
    using ne nf by (simp add: indexes_def Let_def dy_def[symmetric])
  then show ?thesis using indexes_IntIndex by blast
qed

lemma spikes_loop_total:
  assumes "\<forall>cell \<in> set rows. \<exists>ps. indexes cell th md = Inr (IntIndex ps) \<and> (\<forall>p \<in> set ps. p < c)"
    and "shape a = [r, c]"
  shows "\<exists>a'. spikes_loop th md (enumerate k rows) a = Inr a' \<and> shape a' = [r, c]"
  using assms
proof (induction rows arbitrary: k a)
  case Nil
  then show ?case by simp
next
  case (Cons cell rows)
  from Cons.prems(1) obtain ps where
    ps: "indexes cell th md = Inr (IntIndex ps)" "\<forall>p \<in> set ps. p < c" by auto
  define a1 where "a1 = a\<lparr>elems := fold (\<lambda>p es. es[k * c + p := 1]) ps (elems a)\<rparr>"
  have si: "set_item a k (IntIndex ps) 1 = Inr a1"
    using ps(2) Cons.prems(2) by (simp add: set_item_def a1_def)
  have sh1: "shape a1 = [r, c]" using Cons.prems(2) by (simp add: a1_def)
  have "\<exists>a'. spikes_loop th md (enumerate (Suc k) rows) a1 = Inr a' \<and> shape a' = [r, c]"
    by (rule Cons.IH) (use Cons.prems(1) sh1 in auto)
  then show ?case using ps(1) si by simp
qed

text \<open>
  C8. In the matrix that \<open>locate_spikes_peakutils\<close> returns, two entries marked 1 in one
  row are more than \<open>int(fps)\<close> samples apart, \<open>int(fps)\<close> being the minimum distance the
  function passes to the peak finder; so they are never fewer than that many samples
  apart.
\<close>

theorem locate_spikes_min_separation:
  assumes ok: "locate_spikes_peakutils data fps thresh = Inr all_spikes"
    and wf: "wf_ndarray data"
    and row: "row < shape data ! 0"
    and t: "t1 < t2" "t2 < shape data ! 1"
    and one: "get_item all_spikes row t1 = 1" "get_item all_spikes row t2 = 1"
  shows "py_int fps < int (t2 - t1) \<and> \<not> int (t2 - t1) < py_int fps"
proof -
  have "length (shape data) = 2"
    using ok by (simp add: locate_spikes_peakutils_def split: if_splits)
  then obtain r c where sh: "shape data = [r, c]"
    by (cases "shape data"; cases "tl (shape data)") auto
  have len: "length (elems data) = r * c" using wf sh by (simp add: wf_ndarray_def)
  have r: "row < r" and c: "t1 < c" "t2 < c" using row t sh by simp_all
  from locate_spikes_marks[OF ok sh len] r obtain ps where
    ps: "indexes (row_cells data ! row) thresh (py_int fps) = Inr (IntIndex ps)" and
    g: "\<forall>t<c. get_item all_spikes row t = (if t \<in> set ps then 1 else 0)"
    by blast
  have "t1 \<in> set ps" "t2 \<in> set ps"
    using g c one by (auto split: if_splits)
  then have "py_int fps < int (t2 - t1)"
    using indexes_IntIndex[OF ps] t(1) by blast
  then show ?thesis by simp
qed

theorem locate_spikes_min_separation_witness:
  "locate_spikes_peakutils two_peaks (26 / 10) (65 / 100) =
     Inr \<lparr>shape = [1, 6], elems = [0, 1, 0, 0, 1, 0]\<rparr> \<and>
   wf_ndarray two_peaks \<and>
   get_item \<lparr>shape = [1, 6], elems = [0, 1, 0, 0, 1, 0]\<rparr> 0 1 = 1 \<and>
   get_item \<lparr>shape = [1, 6], elems = [0, 1, 0, 0, 1, 0]\<rparr> 0 4 = 1 \<and>
   py_int (26 / 10) < int (4 - 1)"
proof -
  have h: "locate_spikes_peakutils two_peaks (26 / 10) (65 / 100) =
     Inr \<lparr>shape = [1, 6], elems = [0, 1, 0, 0, 1, 0]\<rparr>"
    by code_simp
  have w: "wf_ndarray two_peaks" by (simp add: wf_ndarray_def two_peaks_def)
  have g: "get_item \<lparr>shape = [1, 6], elems = [0, 1, 0, 0, 1, 0]\<rparr> 0 1 = 1"
     "get_item \<lparr>shape = [1, 6], elems = [0, 1, 0, 0, 1, 0]\<rparr> 0 4 = 1"
    by (simp_all add: get_item_def)
  have "py_int (26 / 10) < int (4 - 1)"
    using locate_spikes_min_separation[OF h w _ _ _ g] by (simp add: two_peaks_def)
  then show ?thesis using h w g by simp
qed

text \<open>
  C6 (as the code has it). The minimum peak distance is \<open>int(fps)\<close>, the frame rate
  truncated toward zero: the result depends on \<open>fps\<close> only through \<open>int(fps)\<close>, and on a
  matrix that passes the assertion it is the loop run with \<open>min_dist = int(fps)\<close>. The
  function has no parameter for the separation.
\<close>

theorem locate_spikes_truncates_fps:
  "locate_spikes_peakutils data fps thresh =
     locate_spikes_peakutils data (of_int (py_int fps)) thresh \<and>
   (length (shape data) = 2 \<and> 0 < hd (shape data) \<longrightarrow>
      locate_spikes_peakutils data fps thresh =
        spikes_loop thresh (py_int fps) (enumerate 0 (row_cells data)) (zeros_like data))"
  by (simp add: locate_spikes_peakutils_def Let_def)

theorem locate_spikes_truncates_fps_witness:
  "locate_spikes_peakutils two_peaks (26 / 10) (65 / 100) =
     locate_spikes_peakutils two_peaks 2 (65 / 100) \<and>
   locate_spikes_peakutils two_peaks (26 / 10) (65 / 100) =
     spikes_loop (65 / 100) 2 (enumerate 0 (row_cells two_peaks)) (zeros_like two_peaks)"
proof -
  have i: "py_int (26 / 10) = 2" by code_simp
  have s: "length (shape two_peaks) = 2 \<and> 0 < hd (shape two_peaks)"
    by (simp add: two_peaks_def)
  note t = locate_spikes_truncates_fps[of two_peaks "26 / 10" "65 / 100", unfolded i of_int_numeral]
  show ?thesis using t s by blast
qed

text \<open>
  C6 as stated fails: 2.6 and 3.0 both round to 3, yet at 2.6 frames per second two peaks
  three frames apart are both kept (the distance used is 2), while at 3.0 the lower one
  is removed.
\<close>

theorem locate_spikes_round_counterexample:
  "py_round (26 / 10) = 3 \<and> py_round 3 = 3 \<and>
   locate_spikes_peakutils two_peaks (26 / 10) (65 / 100) =
     Inr \<lparr>shape = [1, 6], elems = [0, 1, 0, 0, 1, 0]\<rparr> \<and>
   locate_spikes_peakutils two_peaks 3 (65 / 100) =
     Inr \<lparr>shape = [1, 6], elems = [0, 0, 0, 0, 1, 0]\<rparr>"
  by code_simp

text \<open>
  C10 (as the code has it). An input that is not two-dimensional or has no row fails the
  assertion. On a two-dimensional input with at least one row the assertion passes, so
  AssertionError cannot come out; the function returns a matrix of the input's shape
  whenever no row is constant. It can still raise from the peak finder.
\<close>

theorem locate_spikes_assertion:
  "(\<not> (length (shape data) = 2 \<and> 0 < hd (shape data)) \<longrightarrow>
      locate_spikes_peakutils data fps thresh = Inl AssertionError) \<and>
   (length (shape data) = 2 \<and> 0 < hd (shape data) \<longrightarrow>
      locate_spikes_peakutils data fps thresh \<noteq> Inl AssertionError) \<and>
   (wf_ndarray data \<and> shape data = [r, c] \<and> 0 < r \<and>
    (\<forall>cell \<in> set (row_cells data). \<exists>i. Suc i < c \<and> cell ! Suc i \<noteq> cell ! i) \<longrightarrow>
      (\<exists>all_spikes. locate_spikes_peakutils data fps thresh = Inr all_spikes \<and>
         shape all_spikes = shape data))"
proof (intro conjI impI)
  assume "\<not> (length (shape data) = 2 \<and> 0 < hd (shape data))"
  then show "locate_spikes_peakutils data fps thresh = Inl AssertionError"
    by (simp add: locate_spikes_peakutils_def)
next
  assume a: "length (shape data) = 2 \<and> 0 < hd (shape data)"
  show "locate_spikes_peakutils data fps thresh \<noteq> Inl AssertionError"
  proof
    assume "locate_spikes_peakutils data fps thresh = Inl AssertionError"
    then have "spikes_loop thresh (py_int fps) (enumerate 0 (row_cells data)) (zeros_like data)
        = Inl AssertionError"
      using a by (simp add: locate_spikes_peakutils_def Let_def)
    from spikes_loop_error[OF this] show False by simp
  qed
next
  assume h: "wf_ndarray data \<and> shape data = [r, c] \<and> 0 < r \<and>
    (\<forall>cell \<in> set (row_cells data). \<exists>i. Suc i < c \<and> cell ! Suc i \<noteq> cell ! i)"
  then have sh: "shape data = [r, c]" and len: "length (elems data) = r * c" and r: "0 < r"
    by (simp_all add: wf_ndarray_def)
  have rc: "\<forall>cell \<in> set (row_cells data). length cell = c"
    using row_cells_length[OF sh len] by blast
  have "\<forall>cell \<in> set (row_cells data).
          \<exists>ps. indexes cell thresh (py_int fps) = Inr (IntIndex ps) \<and> (\<forall>p \<in> set ps. p < c)"
  proof
    fix cell assume m: "cell \<in> set (row_cells data)"
    then obtain i where "Suc i < c" "cell ! Suc i \<noteq> cell ! i" using h by blast
    then show "\<exists>ps. indexes cell thresh (py_int fps) = Inr (IntIndex ps) \<and> (\<forall>p \<in> set ps. p < c)"
      using indexes_nonflat[of i cell thresh "py_int fps"] rc m by auto
  qed
  from spikes_loop_total[OF this, of "zeros_like data" r 0]
  obtain a' where "spikes_loop thresh (py_int fps) (enumerate 0 (row_cells data)) (zeros_like data)
      = Inr a'" "shape a' = [r, c]"
    using sh by (auto simp: zeros_like_def)
  then show "\<exists>all_spikes. locate_spikes_peakutils data fps thresh = Inr all_spikes \<and>
         shape all_spikes = shape data"
    using sh r by (simp add: locate_spikes_peakutils_def Let_def)
qed

theorem locate_spikes_assertion_witness:
  "locate_spikes_peakutils \<lparr>shape = [4], elems = [1, 2, 3, 4]\<rparr> (3003 / 100) (65 / 100)
     = Inl AssertionError \<and>
   locate_spikes_peakutils \<lparr>shape = [0, 4], elems = []\<rparr> (3003 / 100) (65 / 100)
     = Inl AssertionError \<and>
   locate_spikes_peakutils two_peaks (3003 / 100) (65 / 100) \<noteq> Inl AssertionError \<and>
   (\<exists>all_spikes. locate_spikes_peakutils two_peaks (3003 / 100) (65 / 100) = Inr all_spikes \<and>
      shape all_spikes = [1, 6])"
proof -
  have w: "wf_ndarray two_peaks \<and> shape two_peaks = [1, 6] \<and> (0::nat) < 1 \<and>
    (\<forall>cell \<in> set (row_cells two_peaks). \<exists>i. Suc i < 6 \<and> cell ! Suc i \<noteq> cell ! i)"
    by (auto simp: wf_ndarray_def two_peaks_def row_cells_def intro!: exI[of _ 0])
  have s: "length (shape two_peaks) = 2 \<and> 0 < hd (shape two_peaks)"
    by (simp add: two_peaks_def)
  show ?thesis
    using locate_spikes_assertion[of "\<lparr>shape = [4], elems = [1, 2, 3, 4]\<rparr>" "3003 / 100" "65 / 100" 1 6]
      locate_spikes_assertion[of "\<lparr>shape = [0, 4], elems = []\<rparr>" "3003 / 100" "65 / 100" 1 6]
      locate_spikes_assertion[of two_peaks "3003 / 100" "65 / 100" 1 6] w s
    by (simp add: two_peaks_def)
qed

text \<open>
  C10 as stated fails: a matrix with one row and no column passes the assertion, and the
  maximum of the empty row raises ValueError.
\<close>

theorem locate_spikes_no_columns_counterexample:
  "length (shape \<lparr>shape = [1, 0], elems = []\<rparr>) = 2 \<and>
   0 < hd (shape \<lparr>shape = [1, 0], elems = []\<rparr>) \<and>
   locate_spikes_peakutils \<lparr>shape = [1, 0], elems = []\<rparr> (3003 / 100) (65 / 100) = Inl ValueError"
  by code_simp

end
